theory Spec2Isabelle
  imports Main "HOL-Library.Word"
begin

section \<open>The functions of the three headers\<close>








section \<open>The RISC-V hardware probe helper of sys/hwprobe.h\<close>

text \<open>
  \<^verbatim>\<open>__riscv_hwprobe_one\<close> (lines 102 to 127) is the one function with a body.

  \<^verbatim>\<open>struct riscv_hwprobe { signed long long int key; unsigned long long int value; };\<close>
  The field \<^verbatim>\<open>value\<close> is written \<open>value'\<close> below, since \<open>value\<close> is a command of Isabelle.
\<close>

record riscv_hwprobe =
  key :: "64 word"
  value' :: "64 word"

text \<open>
  An address names an object of type \<^verbatim>\<open>unsigned long long int\<close> owned by the caller; the
  helper dereferences its \<^verbatim>\<open>value\<close> argument unchecked, so the model ranges over addresses
  of such objects, and the memory gives each its value. A pointer that may be \<^verbatim>\<open>NULL\<close> is an
  \<open>option\<close>.
\<close>

type_synonym addr = nat

type_synonym memory = "addr \<Rightarrow> 64 word"

text \<open>
  What the helper does to its surroundings, in order: a call through the function pointer
  (with the five arguments it was given: the pair array, \<^verbatim>\<open>pair_count\<close>, \<^verbatim>\<open>cpusetsize\<close>,
  \<^verbatim>\<open>cpus\<close>, \<^verbatim>\<open>flags\<close>) and a store through a pointer.
\<close>

datatype event =
  Probe_call "riscv_hwprobe list" nat nat "addr option" "32 word"
| Store addr "64 word"

record 'w machine =
  heap :: memory
  world :: 'w
  trace :: "event list"

text \<open>
  \<^verbatim>\<open>typedef int (*__riscv_hwprobe_t) (struct riscv_hwprobe *__pairs, size_t __pair_count,
     size_t __cpusetsize, __RISCV_HWPROBE_CPUS_TYPE __cpus, unsigned int __flags)\<close>,
  declared with read-write access to \<^verbatim>\<open>__pairs[0 .. __pair_count)\<close>. The probe is external code:
  it reads and rewrites the pair array, and like any C function it may read and write the
  caller's memory and depend on and change a world \<open>'w\<close> that the helper never looks at
  (the kernel, for the system call). It gets the memory and the world and hands both back.
\<close>

type_synonym 'w riscv_hwprobe_t =
  "riscv_hwprobe list \<Rightarrow> nat \<Rightarrow> nat \<Rightarrow> addr option \<Rightarrow> 32 word \<Rightarrow> memory \<Rightarrow> 'w
     \<Rightarrow> 32 word \<times> riscv_hwprobe list \<times> memory \<times> 'w"

text \<open>
  The local \<^verbatim>\<open>pair\<close> after the call: the first element of the array the probe hands back
  (a probe that hands back no element has left the local as it was).
\<close>

definition pair_after :: "riscv_hwprobe \<Rightarrow> riscv_hwprobe list \<Rightarrow> riscv_hwprobe" where
  "pair_after pair pairs = (case pairs of [] \<Rightarrow> pair | p # _ \<Rightarrow> p)"

text \<open>
  \<^verbatim>\<open>
  static __inline int
  __riscv_hwprobe_one(__riscv_hwprobe_t hwprobe_func, long long int key,
                      unsigned long long int *value)
  {
    struct riscv_hwprobe pair;
    int rc;
    if (hwprobe_func == NULL)
      return ENOSYS;
    pair.key = key;
    rc = hwprobe_func (&pair, 1, 0, NULL, 0);
    if (rc != 0)
      return rc;
    if (pair.key < 0)
      return ENOENT;
    *value = pair.value;
    return 0;
  }
  \<close>
  \<^verbatim>\<open>ENOSYS\<close> and \<^verbatim>\<open>ENOENT\<close> are macros of \<^verbatim>\<open>errno.h\<close>, which is not among the sources: they
  are the first two parameters. \<^verbatim>\<open>pair.value\<close> is not initialised before the call: what
  the stack holds there is the parameter \<open>uninit\<close>.
\<close>

definition riscv_hwprobe_one ::
  "32 word \<Rightarrow> 32 word \<Rightarrow> 'w riscv_hwprobe_t option \<Rightarrow> 64 word \<Rightarrow> addr \<Rightarrow> 64 word
     \<Rightarrow> 'w machine \<Rightarrow> 32 word \<times> 'w machine" where
  "riscv_hwprobe_one ENOSYS ENOENT hwprobe_func key_arg value_ptr uninit s =
     (case hwprobe_func of
        None \<Rightarrow> (ENOSYS, s)
      | Some f \<Rightarrow>
          (let pair0 = \<lparr>key = key_arg, value' = uninit\<rparr>;
               (rc, pairs, m, w) = f [pair0] 1 0 None 0 (heap s) (world s);
               pair = pair_after pair0 pairs;
               s1 = s\<lparr>heap := m, world := w,
                      trace := trace s @ [Probe_call [pair0] 1 0 None 0]\<rparr>
           in if rc \<noteq> 0 then (rc, s1)
              else if sint (key pair) < 0 then (ENOENT, s1)
              else (0, s1\<lparr>heap := (heap s1)(value_ptr := value' pair),
                           trace := trace s1 @ [Store value_ptr (value' pair)]\<rparr>)))"

text \<open>The events an execution from \<open>s\<close> to \<open>s'\<close> has added, and the stores and calls among them.\<close>

definition new_events :: "'w machine \<Rightarrow> 'w machine \<Rightarrow> event list" where
  "new_events s s' = drop (length (trace s)) (trace s')"

fun stores_through :: "addr \<Rightarrow> event list \<Rightarrow> 64 word list" where
  "stores_through p [] = []"
| "stores_through p (Store a v # es) = (if a = p then v # stores_through p es else stores_through p es)"
| "stores_through p (Probe_call ps n m c fl # es) = stores_through p es"

fun probe_calls :: "event list \<Rightarrow> event list" where
  "probe_calls [] = []"
| "probe_calls (Store a v # es) = probe_calls es"
| "probe_calls (Probe_call ps n m c fl # es) = Probe_call ps n m c fl # probe_calls es"

subsection \<open>Probes to run the helper on\<close>


definition probe_known :: "unit riscv_hwprobe_t" where
  "probe_known pairs n cs cpus fl m w = (0, map (\<lambda>p. p\<lparr>value' := 7\<rparr>) pairs, m, w)"

definition probe_unknown :: "unit riscv_hwprobe_t" where
  "probe_unknown pairs n cs cpus fl m w =
     (0, map (\<lambda>p. p\<lparr>key := - 1, value' := 0\<rparr>) pairs, m, w)"


definition probe_scribbling :: "unit riscv_hwprobe_t" where
  "probe_scribbling pairs n cs cpus fl m w = (- 22, pairs, m(5 := 99), w)"

definition machine0 :: "unit machine" where
  "machine0 = \<lparr>heap = (\<lambda>a. 0), world = (), trace = []\<rparr>"

section \<open>The buffered Stream of the specification\<close>

text \<open>
  Modelled from the spec: the stream layer behind the declarations of \<^verbatim>\<open>stdio.h\<close>
  (\<^verbatim>\<open>fopen\<close>, \<^verbatim>\<open>fgetc\<close>, \<^verbatim>\<open>fread\<close>, \<^verbatim>\<open>fputc\<close>, \<^verbatim>\<open>fwrite\<close>, \<^verbatim>\<open>fflush\<close>, \<^verbatim>\<open>fseek\<close>, \<^verbatim>\<open>ungetc\<close>,
  \<^verbatim>\<open>fclose\<close>, \<^verbatim>\<open>clearerr\<close>) has no body among the sources. The specification describes it
  as one component, the Stream (its sections 3, 4.1, 6 and 7), and everything in this
  section follows those sentences; the header contributes the three buffering modes
  (\<^verbatim>\<open>_IONBF\<close>, \<^verbatim>\<open>_IOLBF\<close>, \<^verbatim>\<open>_IOFBF\<close>) and the three seek origins (\<^verbatim>\<open>SEEK_SET\<close>, \<^verbatim>\<open>SEEK_CUR\<close>,
  \<^verbatim>\<open>SEEK_END\<close>). The \<^verbatim>\<open>lock\<close> of the data model is about threads and is not modelled.
\<close>

type_synonym byte = "8 word"

datatype mode = Unbuffered | Line_buffered | Fully_buffered

datatype direction = Idle | Reading | Writing

datatype whence = Seek_set | Seek_cur | Seek_end

text \<open>
  Modelled from the spec: the error taxonomy of section 7. \<^verbatim>\<open>UsageError\<close>; \<^verbatim>\<open>DeviceError\<close>, which carries the device's raw error, or stands
  for two device writes in a row without progress; \<^verbatim>\<open>EndOfStream\<close>, which is not an error
  but a third result of a read.
\<close>

datatype raw_error = Raw nat | Zero_progress

datatype error = UsageError | DeviceError raw_error

datatype read_result = Byte byte | EndOfStream | Error error

text \<open>
  Modelled from the spec: the external device of section 6, \<^verbatim>\<open>deviceRead(buffer, maxLen) -> bytesRead|Error\<close>,
  \<^verbatim>\<open>deviceWrite(buffer, len) -> bytesWritten|Error\<close>, \<^verbatim>\<open>deviceSeek(offset, whence) -> Ok|Error\<close>,
  \<^verbatim>\<open>deviceClose() -> Ok|Error\<close>. The device is external: it is any four functions on a
  device state \<open>'d\<close>, with \<open>Inl\<close> the raw error. A read hands back the bytes it put in the
  buffer, a write the number of bytes it took, and the \<^verbatim>\<open>Ok\<close> of a seek the offset the
  device is at, from which \<^verbatim>\<open>position\<close> is updated.
\<close>

record 'd device =
  deviceRead :: "'d \<Rightarrow> nat \<Rightarrow> (nat + byte list) \<times> 'd"
  deviceWrite :: "'d \<Rightarrow> byte list \<Rightarrow> (nat + nat) \<times> 'd"
  deviceSeek :: "'d \<Rightarrow> int \<Rightarrow> whence \<Rightarrow> (nat + int) \<times> 'd"
  deviceClose :: "'d \<Rightarrow> (nat + unit) \<times> 'd"

text \<open>The calls a Stream has made to its device, each with what the device answered.\<close>

datatype dev_call =
  Dev_read nat "nat + byte list"
| Dev_write "byte list" "nat + nat"
| Dev_seek int whence "nat + int"
| Dev_close "nat + unit"

text \<open>
  Modelled from the spec: the data model of section 3. \<open>buffer\<close> is the resizable byte sequence: it holds the
  buffered bytes, \<open>write_end\<close> of them, and \<open>capacity\<close> is the most it may hold.
  \<open>sticky\<close> is the error that \<open>error_flag\<close> stands for (operations fail fast "with the
  same sticky error"), \<open>allocated\<close> says whether the lazily allocated buffer exists,
  \<open>closed\<close> whether the Stream has been closed, and \<open>calls\<close> records the device calls.
  \<open>position\<close> counts the bytes the device has given or taken and is set by a seek.
\<close>

record 'd stream =
  handle :: 'd
  buffer :: "byte list"
  capacity :: nat
  read_pos :: nat
  write_end :: nat
  mode :: mode
  direction :: direction
  eof_flag :: bool
  error_flag :: bool
  sticky :: raw_error
  position :: int
  allocated :: bool
  closed :: bool
  calls :: "dev_call list"

definition newline :: byte where
  "newline = 10"

text \<open>"Device errors set the sticky \<^verbatim>\<open>error_flag\<close>".\<close>

definition device_failed :: "raw_error \<Rightarrow> 'd stream \<Rightarrow> 'd stream" where
  "device_failed e s = s\<lparr>error_flag := True, sticky := e\<rparr>"

text \<open>The buffered bytes not yet read: those from \<open>read_pos\<close> up to \<open>write_end\<close>.\<close>

definition unread :: "'d stream \<Rightarrow> byte list" where
  "unread s = drop (read_pos s) (take (write_end s) (buffer s))"

definition discard_buffer :: "'d stream \<Rightarrow> 'd stream" where
  "discard_buffer s = s\<lparr>buffer := [], read_pos := 0, write_end := 0\<rparr>"

text \<open>
  Modelled from the spec: the retry loop of \<^verbatim>\<open>flush\<close> and \<^verbatim>\<open>writeBytes\<close>, which "issues one device write of all buffered,
  unwritten bytes, retried on partial writes", "until the full range is written, the device
  reports an error, or zero progress is made twice in a row (treated as a fatal device
  error)". \<open>zeros\<close> counts the device writes without progress just before this one. Bytes
  the device took leave the buffer.
\<close>

definition note_write :: "byte list \<Rightarrow> nat + nat \<Rightarrow> 'd \<Rightarrow> 'd stream \<Rightarrow> 'd stream" where
  "note_write bs r h s = s\<lparr>handle := h, calls := calls s @ [Dev_write bs r]\<rparr>"

definition advance :: "nat \<Rightarrow> 'd stream \<Rightarrow> 'd stream" where
  "advance n s =
     s\<lparr>buffer := drop n (buffer s), write_end := write_end s - n,
       position := position s + int (min n (write_end s))\<rparr>"

function flush_pending :: "'d device \<Rightarrow> nat \<Rightarrow> 'd stream \<Rightarrow> (error + unit) \<times> 'd stream" where
  "flush_pending dev zeros s =
     (if write_end s = 0 then (Inr (), s)
      else
        (case deviceWrite dev (handle s) (take (write_end s) (buffer s)) of
           (Inl e, h) \<Rightarrow>
             (Inl (DeviceError (Raw e)),
              device_failed (Raw e) (note_write (take (write_end s) (buffer s)) (Inl e) h s))
         | (Inr n, h) \<Rightarrow>
             if n = 0 then
               (if 1 \<le> zeros
                then (Inl (DeviceError Zero_progress),
                      device_failed Zero_progress
                        (note_write (take (write_end s) (buffer s)) (Inr n) h s))
                else flush_pending dev (Suc zeros)
                       (note_write (take (write_end s) (buffer s)) (Inr n) h s))
             else flush_pending dev 0
                    (advance n (note_write (take (write_end s) (buffer s)) (Inr n) h s))))"
  by pat_completeness auto
termination
  by (relation "measure (\<lambda>(dev, zeros, s). 2 * write_end s + (1 - zeros))")
    (auto simp add: note_write_def advance_def)

text \<open>
  Modelled from the spec: \<^verbatim>\<open>flush() -> Ok | Error\<close>, in writing direction the retry loop; in reading direction (and
  with nothing written) a no-op. A closed Stream fails with a usage error; with
  \<^verbatim>\<open>error_flag\<close> set "no further I/O is attempted" and the operation fails with the sticky
  error.
\<close>

definition flush :: "'d device \<Rightarrow> 'd stream \<Rightarrow> (error + unit) \<times> 'd stream" where
  "flush dev s =
     (if closed s then (Inl UsageError, s)
      else if error_flag s then (Inl (DeviceError (sticky s)), s)
      else if direction s = Writing then flush_pending dev 0 s
      else (Inr (), s))"

text \<open>
  Modelled from the spec: \<^verbatim>\<open>writeByte(b) -> Ok | Error\<close>, which "appends to the write buffer; if buffer is full, flushes
  via one device write of \<^verbatim>\<open>write_end\<close> bytes before appending. Unbuffered mode flushes after
  every byte; line-buffered mode flushes upon writing a newline byte." Writing in reading
  direction "discards unread buffered bytes before the switch". The first I/O allocates
  the buffer. The flush of a full buffer is the retry loop as well: one device write when
  the device takes the bytes whole.
\<close>

definition to_writing :: "'d stream \<Rightarrow> 'd stream" where
  "to_writing s =
     (if direction s = Reading then discard_buffer s else s)\<lparr>direction := Writing, allocated := True\<rparr>"

definition append_byte :: "byte \<Rightarrow> 'd stream \<Rightarrow> 'd stream" where
  "append_byte b s = s\<lparr>buffer := take (write_end s) (buffer s) @ [b], write_end := Suc (write_end s)\<rparr>"

definition flush_after :: "byte \<Rightarrow> 'd stream \<Rightarrow> bool" where
  "flush_after b s = (mode s = Unbuffered \<or> (mode s = Line_buffered \<and> b = newline))"

definition make_room :: "'d device \<Rightarrow> 'd stream \<Rightarrow> (error + unit) \<times> 'd stream" where
  "make_room dev s =
     (if capacity s \<le> write_end s then flush_pending dev 0 s else (Inr (), s))"

definition put_byte :: "'d device \<Rightarrow> byte \<Rightarrow> 'd stream \<Rightarrow> (error + unit) \<times> 'd stream" where
  "put_byte dev b s =
     (if flush_after b s then flush_pending dev 0 (append_byte b s)
      else (Inr (), append_byte b s))"

definition writeByte :: "'d device \<Rightarrow> byte \<Rightarrow> 'd stream \<Rightarrow> (error + unit) \<times> 'd stream" where
  "writeByte dev b s =
     (if closed s then (Inl UsageError, s)
      else if error_flag s then (Inl (DeviceError (sticky s)), s)
      else
        (case make_room dev (to_writing s) of
           (Inl e, s1) \<Rightarrow> (Inl e, s1)
         | (Inr u, s1) \<Rightarrow> put_byte dev b s1))"

text \<open>
  Modelled from the spec: \<^verbatim>\<open>writeBytes(seq) -> count written | Error\<close>, the "same buffering policy applied
  byte-range-wise", every flush being the retry loop. A zero-length write is a no-op.
\<close>

fun writeBytes :: "'d device \<Rightarrow> byte list \<Rightarrow> 'd stream \<Rightarrow> (error + nat) \<times> 'd stream" where
  "writeBytes dev [] s = (Inr 0, s)"
| "writeBytes dev (b # bs) s =
     (case writeByte dev b s of
        (Inl e, s1) \<Rightarrow> (Inl e, s1)
      | (Inr u, s1) \<Rightarrow>
          (case writeBytes dev bs s1 of
             (Inl e, s2) \<Rightarrow> (Inl e, s2)
           | (Inr n, s2) \<Rightarrow> (Inr (Suc n), s2)))"

text \<open>
  Modelled from the spec: one device read "up to \<^verbatim>\<open>capacity\<close> bytes": the device fills at most \<open>capacity\<close> bytes of
  the buffer, whatever it offers.
\<close>

definition dev_read :: "'d device \<Rightarrow> 'd stream \<Rightarrow> (nat + byte list) \<times> 'd stream" where
  "dev_read dev s =
     (case deviceRead dev (handle s) (capacity s) of
        (Inl e, h) \<Rightarrow>
          (Inl e, s\<lparr>handle := h, calls := calls s @ [Dev_read (capacity s) (Inl e)]\<rparr>)
      | (Inr bs, h) \<Rightarrow>
          (Inr (take (capacity s) bs),
           s\<lparr>handle := h, calls := calls s @ [Dev_read (capacity s) (Inr (take (capacity s) bs))]\<rparr>))"

text \<open>
  Modelled from the spec: \<^verbatim>\<open>readByte() -> byte | EndOfStream | Error\<close>, which, "if buffered reading has bytes remaining,
  returns the next one; else refills the buffer with one device read (up to \<^verbatim>\<open>capacity\<close>
  bytes), setting \<^verbatim>\<open>eof_flag\<close> if the device read returns zero bytes, or \<^verbatim>\<open>error_flag\<close> on
  device failure. A buffer refill while in writing direction first flushes pending writes."
\<close>

definition refill :: "'d device \<Rightarrow> 'd stream \<Rightarrow> read_result \<times> 'd stream" where
  "refill dev s =
     (case dev_read dev s of
        (Inl e, s1) \<Rightarrow> (Error (DeviceError (Raw e)), device_failed (Raw e) s1)
      | (Inr bs, s1) \<Rightarrow>
          (case bs of
             [] \<Rightarrow> (EndOfStream, s1\<lparr>eof_flag := True\<rparr>)
           | b # rest \<Rightarrow>
               (Byte b, s1\<lparr>buffer := bs, read_pos := 1, write_end := length bs,
                           position := position s1 + int (length bs)\<rparr>)))"

definition next_byte :: "'d device \<Rightarrow> 'd stream \<Rightarrow> read_result \<times> 'd stream" where
  "next_byte dev s =
     (case unread s of
        b # rest \<Rightarrow> (Byte b, s\<lparr>read_pos := Suc (read_pos s)\<rparr>)
      | [] \<Rightarrow> refill dev s)"

definition flush_if_writing :: "'d device \<Rightarrow> 'd stream \<Rightarrow> (error + unit) \<times> 'd stream" where
  "flush_if_writing dev s =
     (if direction s = Writing then flush_pending dev 0 s else (Inr (), s))"

definition to_reading :: "'d stream \<Rightarrow> 'd stream" where
  "to_reading s = s\<lparr>direction := Reading, allocated := True\<rparr>"

definition readByte :: "'d device \<Rightarrow> 'd stream \<Rightarrow> read_result \<times> 'd stream" where
  "readByte dev s =
     (if closed s then (Error UsageError, s)
      else if error_flag s then (Error (DeviceError (sticky s)), s)
      else
        (case flush_if_writing dev s of
           (Inl e, s1) \<Rightarrow> (Error e, s1)
         | (Inr u, s1) \<Rightarrow> next_byte dev (to_reading s1)))"

text \<open>
  Modelled from the spec: \<^verbatim>\<open>readBytes(n) -> sequence of bytes, count read\<close>, which "repeats single-byte/buffer-refill logic
  until \<^verbatim>\<open>n\<close> bytes are collected, device is exhausted, or an error occurs; returns a short
  count on either exhaustion or error". The count is the length of the sequence.
\<close>

fun readBytes :: "'d device \<Rightarrow> nat \<Rightarrow> 'd stream \<Rightarrow> byte list \<times> 'd stream" where
  "readBytes dev 0 s = ([], s)"
| "readBytes dev (Suc n) s =
     (case readByte dev s of
        (Byte b, s1) \<Rightarrow> (case readBytes dev n s1 of (bs, s2) \<Rightarrow> (b # bs, s2))
      | (EndOfStream, s1) \<Rightarrow> ([], s1)
      | (Error e, s1) \<Rightarrow> ([], s1))"

text \<open>
  Modelled from the spec: \<^verbatim>\<open>seek(offset, whence) -> Ok | Error\<close>, which "flushes pending writes first; discards any buffered
  unread bytes; issues a device seek; resets \<^verbatim>\<open>read_pos\<close>/\<^verbatim>\<open>write_end\<close> to empty and updates
  \<^verbatim>\<open>position\<close>. Fails if the device does not support seeking." With its buffer empty the
  Stream is idle again.
\<close>

definition dev_seek :: "'d device \<Rightarrow> int \<Rightarrow> whence \<Rightarrow> 'd stream \<Rightarrow> (error + unit) \<times> 'd stream" where
  "dev_seek dev off wh s =
     (case deviceSeek dev (handle s) off wh of
        (Inl e, h) \<Rightarrow>
          (Inl (DeviceError (Raw e)),
           device_failed (Raw e) (s\<lparr>handle := h, calls := calls s @ [Dev_seek off wh (Inl e)]\<rparr>))
      | (Inr pos, h) \<Rightarrow>
          (Inr (), s\<lparr>handle := h, calls := calls s @ [Dev_seek off wh (Inr pos)],
                     position := pos, direction := Idle\<rparr>))"

definition seek :: "'d device \<Rightarrow> int \<Rightarrow> whence \<Rightarrow> 'd stream \<Rightarrow> (error + unit) \<times> 'd stream" where
  "seek dev off wh s =
     (if closed s then (Inl UsageError, s)
      else if error_flag s then (Inl (DeviceError (sticky s)), s)
      else
        (case flush_if_writing dev s of
           (Inl e, s1) \<Rightarrow> (Inl e, s1)
         | (Inr u, s1) \<Rightarrow> dev_seek dev off wh (discard_buffer s1)))"

text \<open>
  Modelled from the spec: \<^verbatim>\<open>pushBack(byte) -> Ok | Error\<close>, which "makes one previously read byte available again for the
  next read, provided a read has occurred and the buffer has room to prepend": the Stream
  is reading and there is a read byte in front of \<open>read_pos\<close>, whose place the byte takes.
\<close>

definition pushBack :: "'d device \<Rightarrow> byte \<Rightarrow> 'd stream \<Rightarrow> (error + unit) \<times> 'd stream" where
  "pushBack dev b s =
     (if closed s then (Inl UsageError, s)
      else if error_flag s then (Inl (DeviceError (sticky s)), s)
      else if direction s = Reading \<and> 0 < read_pos s
      then (Inr (), s\<lparr>buffer := (buffer s)[read_pos s - 1 := b], read_pos := read_pos s - 1\<rparr>)
      else (Inl UsageError, s))"

text \<open>
  Modelled from the spec: \<^verbatim>\<open>close() -> Ok | Error\<close>, which "flushes (if writing), releases buffer and handle; subsequent
  operations on a closed Stream fail with a usage error"; "closing twice is a fatal usage
  error". The first failure, of the flush or of the device's close, is the result.
\<close>

definition close :: "'d device \<Rightarrow> 'd stream \<Rightarrow> (error + unit) \<times> 'd stream" where
  "close dev s =
     (if closed s then (Inl UsageError, s)
      else
        (case flush dev s of
           (r, s1) \<Rightarrow>
             (case deviceClose dev (handle s1) of
                (rc, h) \<Rightarrow>
                  (let s2 = (discard_buffer s1)\<lparr>handle := h, calls := calls s1 @ [Dev_close rc],
                               allocated := False, closed := True, direction := Idle\<rparr>
                   in case rc of
                        Inl e \<Rightarrow>
                          (case r of Inl e1 \<Rightarrow> (Inl e1, device_failed (Raw e) s2)
                           | Inr u \<Rightarrow> (Inl (DeviceError (Raw e)), device_failed (Raw e) s2))
                      | Inr u \<Rightarrow> (r, s2)))))"

text \<open>Modelled from the spec: \<^verbatim>\<open>clearError()\<close>, which "resets both sticky flags without affecting buffered data".\<close>

definition clearError :: "'d stream \<Rightarrow> 'd stream" where
  "clearError s = s\<lparr>eof_flag := False, error_flag := False\<rparr>"

text \<open>A freshly opened Stream over a device state, with its buffer not yet allocated.\<close>

definition fresh :: "'d \<Rightarrow> mode \<Rightarrow> nat \<Rightarrow> 'd stream" where
  "fresh h m cap =
     \<lparr>handle = h, buffer = [], capacity = cap, read_pos = 0, write_end = 0,
      mode = m, direction = Idle, eof_flag = False, error_flag = False,
      sticky = Zero_progress, position = 0, allocated = False, closed = False,
      calls = []\<rparr>"


text \<open>
  Modelled from the spec: \<^verbatim>\<open>open(source, mode) -> Stream | Error\<close>, which "acquires the
  device handle; does not allocate the buffer eagerly". The source is what acquiring the
  device gave, a raw error or a handle. The spec gives \<^verbatim>\<open>open\<close> no capacity and the Stream
  a \<^verbatim>\<open>capacity\<close>: it is the third argument, and any number.
\<close>

definition open_stream :: "nat + 'd \<Rightarrow> mode \<Rightarrow> nat \<Rightarrow> error + 'd stream" where
  "open_stream source m cap =
     (case source of
        Inl e \<Rightarrow> Inl (DeviceError (Raw e))
      | Inr h \<Rightarrow> Inr (fresh h m cap))"

text \<open>The public operations on an open Stream, and the Stream each leaves behind.\<close>

datatype operation =
  ReadByte | ReadBytes nat | WriteByte byte | WriteBytes "byte list" | Flush
| Seek int whence | PushBack byte | Close | ClearError

fun apply_op :: "'d device \<Rightarrow> operation \<Rightarrow> 'd stream \<Rightarrow> 'd stream" where
  "apply_op dev ReadByte s = snd (readByte dev s)"
| "apply_op dev (ReadBytes n) s = snd (readBytes dev n s)"
| "apply_op dev (WriteByte b) s = snd (writeByte dev b s)"
| "apply_op dev (WriteBytes bs) s = snd (writeBytes dev bs s)"
| "apply_op dev Flush s = snd (flush dev s)"
| "apply_op dev (Seek off wh) s = snd (seek dev off wh s)"
| "apply_op dev (PushBack b) s = snd (pushBack dev b s)"
| "apply_op dev Close s = snd (close dev s)"
| "apply_op dev ClearError s = clearError s"

text \<open>The device calls an execution from \<open>s\<close> to \<open>s'\<close> has added, and which of them are writes.\<close>

definition new_calls :: "'d stream \<Rightarrow> 'd stream \<Rightarrow> dev_call list" where
  "new_calls s s' = drop (length (calls s)) (calls s')"

fun is_write :: "dev_call \<Rightarrow> bool" where
  "is_write (Dev_write bs r) = True"
| "is_write _ = False"

text \<open>A device write that took no byte, one that failed with a given raw error, and a
  device read that returned zero bytes.\<close>

fun zero_write :: "dev_call \<Rightarrow> bool" where
  "zero_write (Dev_write bs (Inr n)) = (n = 0)"
| "zero_write _ = False"

fun failed_write :: "nat \<Rightarrow> dev_call \<Rightarrow> bool" where
  "failed_write e (Dev_write bs (Inl e')) = (e = e')"
| "failed_write e _ = False"

fun empty_read :: "dev_call \<Rightarrow> bool" where
  "empty_read (Dev_read n (Inr bs)) = (bs = [])"
| "empty_read _ = False"

text \<open>The last two calls of a list are both device writes that took no byte.\<close>

fun last_two_zero :: "dev_call list \<Rightarrow> bool" where
  "last_two_zero [] = False"
| "last_two_zero [c] = False"
| "last_two_zero [c, c'] = (zero_write c \<and> zero_write c')"
| "last_two_zero (c # cs) = last_two_zero cs"

text \<open>
  The bytes a Stream holds for the device. A list of device calls is a chain from these
  bytes if every call is a write that offers exactly the bytes the writes before it have
  not taken; \<open>rest_after\<close> gives the bytes the calls have not taken. A list of calls has
  halted if its last call is a write that failed or its last two calls are writes that took
  no byte.
\<close>

definition pending :: "'d stream \<Rightarrow> byte list" where
  "pending s = take (write_end s) (buffer s)"





text \<open>
  An execution from \<open>s\<close> to \<open>s'\<close> keeps the calls made so far and the capacity, and
  \<open>eof_flag\<close> is set after it exactly if it was set before or one of the new device calls
  is a read that returned zero bytes.
\<close>

definition tracks :: "'d stream \<Rightarrow> 'd stream \<Rightarrow> bool" where
  "tracks s s' =
     (take (length (calls s)) (calls s') = calls s \<and> capacity s' = capacity s
      \<and> eof_flag s' = (eof_flag s \<or> list_ex empty_read (new_calls s s')))"

text \<open>A sequence of public operations on a Stream.\<close>

fun run :: "'d device \<Rightarrow> operation list \<Rightarrow> 'd stream \<Rightarrow> 'd stream" where
  "run dev [] s = s"
| "run dev (op # ops) s = run dev ops (apply_op dev op s)"

text \<open>
  The invariant of section 3, \<^verbatim>\<open>read_pos <= write_end <= capacity\<close>, and what else every
  Stream that was opened with a capacity of one byte at least satisfies after any operations:
  the buffer holds \<open>write_end\<close> bytes and can hold one at least, a writing Stream has
  read nothing of its buffer, an idle one has an empty buffer.
\<close>

definition cursor_inv :: "'d stream \<Rightarrow> bool" where
  "cursor_inv s = (read_pos s \<le> write_end s \<and> write_end s \<le> capacity s)"

definition stream_ok :: "'d stream \<Rightarrow> bool" where
  "stream_ok s =
     (cursor_inv s \<and> length (buffer s) = write_end s \<and> 0 < capacity s
      \<and> (if direction s = Writing then read_pos s = 0
         else if direction s = Idle then write_end s = 0 else True))"

subsection \<open>Devices to run a Stream on\<close>

text \<open>
  A file in memory: its bytes and the offset of the next read or write. A read takes the
  bytes at the offset, a write overwrites or extends the file there (a gap is filled with
  zero bytes) and takes every byte, a seek moves the offset and fails before the start.
\<close>

record mem =
  content :: "byte list"
  offset :: nat

definition mem_read :: "mem \<Rightarrow> nat \<Rightarrow> (nat + byte list) \<times> mem" where
  "mem_read m n =
     (Inr (take n (drop (offset m) (content m))),
      m\<lparr>offset := offset m + length (take n (drop (offset m) (content m)))\<rparr>)"

definition mem_write :: "mem \<Rightarrow> byte list \<Rightarrow> (nat + nat) \<times> mem" where
  "mem_write m bs =
     (Inr (length bs),
      m\<lparr>content := take (offset m) (content m) @ replicate (offset m - length (content m)) 0
                     @ bs @ drop (offset m + length bs) (content m),
        offset := offset m + length bs\<rparr>)"

definition mem_seek :: "mem \<Rightarrow> int \<Rightarrow> whence \<Rightarrow> (nat + int) \<times> mem" where
  "mem_seek m off wh =
     (let target = (case wh of Seek_set \<Rightarrow> off
                    | Seek_cur \<Rightarrow> int (offset m) + off
                    | Seek_end \<Rightarrow> int (length (content m)) + off)
      in if target < 0 then (Inl 22, m) else (Inr target, m\<lparr>offset := nat target\<rparr>))"

definition mem_device :: "mem device" where
  "mem_device = \<lparr>deviceRead = mem_read, deviceWrite = mem_write, deviceSeek = mem_seek,
                  deviceClose = (\<lambda>m. (Inr (), m))\<rparr>"



definition stuck_device :: "unit device" where
  "stuck_device = \<lparr>deviceRead = (\<lambda>d n. (Inr [], d)), deviceWrite = (\<lambda>d bs. (Inr 0, d)),
                    deviceSeek = (\<lambda>d off wh. (Inl 29, d)), deviceClose = (\<lambda>d. (Inr (), d))\<rparr>"


subsection \<open>Writing and reading back\<close>








section \<open>Properties of the helper\<close>

lemma hwprobe_one_null:
  "riscv_hwprobe_one ENOSYS ENOENT None k p u s = (ENOSYS, s)"
  by (simp add: riscv_hwprobe_one_def)

lemma hwprobe_one_some:
  assumes "f [\<lparr>key = k, value' = u\<rparr>] 1 0 None 0 (heap s) (world s) = (rc, pairs, m, w)"
  shows "riscv_hwprobe_one ENOSYS ENOENT (Some f) k p u s =
     (let s1 = s\<lparr>heap := m, world := w,
                 trace := trace s @ [Probe_call [\<lparr>key = k, value' = u\<rparr>] 1 0 None 0]\<rparr>;
          pair = pair_after \<lparr>key = k, value' = u\<rparr> pairs
      in if rc \<noteq> 0 then (rc, s1)
         else if sint (key pair) < 0 then (ENOENT, s1)
         else (0, s\<lparr>heap := m(p := value' pair), world := w,
                    trace := trace s @ [Probe_call [\<lparr>key = k, value' = u\<rparr>] 1 0 None 0,
                                        Store p (value' pair)]\<rparr>))"
  using assms by (simp add: riscv_hwprobe_one_def Let_def)

lemma new_events_append [simp]:
  "trace s' = trace s @ es \<Longrightarrow> new_events s s' = es"
  by (simp add: new_events_def)

lemma new_events_same [simp]: "new_events s s = []"
  by (simp add: new_events_def)







text \<open>
  C2: with a null function pointer the helper returns \<^verbatim>\<open>ENOSYS\<close>, for every key and value
  pointer; it calls no probe and stores nothing through the value pointer: the machine
  is the one it started from.
\<close>

theorem hwprobe_one_null_enosys:
  "fst (riscv_hwprobe_one ENOSYS ENOENT None k p u s) = ENOSYS
   \<and> snd (riscv_hwprobe_one ENOSYS ENOENT None k p u s) = s
   \<and> probe_calls (new_events s (snd (riscv_hwprobe_one ENOSYS ENOENT None k p u s))) = []
   \<and> stores_through p (new_events s (snd (riscv_hwprobe_one ENOSYS ENOENT None k p u s))) = []
   \<and> heap (snd (riscv_hwprobe_one ENOSYS ENOENT None k p u s)) = heap s"
  by (simp add: hwprobe_one_null)

text \<open>
  C3 (as stated, refuted): the claim has the memory at the value pointer unchanged on every
  return other than 0, for every \<^verbatim>\<open>hwprobe_func\<close>. But \<^verbatim>\<open>hwprobe_func\<close> is code the helper
  calls, and it may write that memory itself: with a probe that writes 99 to the object at
  address 5 and fails with -22, the helper returns -22 and the object, 0 before, holds 99,
  though the helper has stored nothing.
\<close>

theorem hwprobe_one_probe_may_write:
  "fst (riscv_hwprobe_one 38 2 (Some probe_scribbling) 4 5 0 machine0) = - 22
   \<and> heap machine0 5 = 0
   \<and> heap (snd (riscv_hwprobe_one 38 2 (Some probe_scribbling) 4 5 0 machine0)) 5 = 99
   \<and> stores_through 5 (new_events machine0
         (snd (riscv_hwprobe_one 38 2 (Some probe_scribbling) 4 5 0 machine0))) = []"
  by (simp add: riscv_hwprobe_one_def probe_scribbling_def machine0_def pair_after_def)

text \<open>
  C3 (amended): with a function pointer that is not null, and \<^verbatim>\<open>ENOENT\<close> not 0, the helper
  itself stores through the value pointer if and only if it returns 0. When it returns 0 it
  has stored once, the value of the pair handed back, and the memory is what the call of
  \<^verbatim>\<open>hwprobe_func\<close> left with that value at the value pointer. On every other return the
  memory is what the call of \<^verbatim>\<open>hwprobe_func\<close> left: unchanged at the value pointer whenever
  the call left it unchanged there.
\<close>

theorem hwprobe_one_store_iff_zero:
  assumes "ENOENT \<noteq> 0"
    and "f [\<lparr>key = k, value' = u\<rparr>] 1 0 None 0 (heap s) (world s) = (rc, pairs, m, w)"
    and "riscv_hwprobe_one ENOSYS ENOENT (Some f) k p u s = (r, s')"
    and "pair = pair_after \<lparr>key = k, value' = u\<rparr> pairs"
  shows "(stores_through p (new_events s s') \<noteq> []) = (r = 0)
         \<and> (r = 0 \<longrightarrow> stores_through p (new_events s s') = [value' pair]
                \<and> heap s' = m(p := value' pair))
         \<and> (r \<noteq> 0 \<longrightarrow> heap s' = m \<and> (m p = heap s p \<longrightarrow> heap s' p = heap s p))"
proof -
  note one = hwprobe_one_some [where f = f, OF assms(2), of ENOSYS ENOENT p]
  let ?call = "Probe_call [\<lparr>key = k, value' = u\<rparr>] 1 0 None 0"
  consider (fail) "rc \<noteq> 0" | (neg) "rc = 0" "sint (key pair) < 0"
    | (ok) "rc = 0" "\<not> sint (key pair) < 0" by blast
  then show ?thesis
  proof cases
    case fail
    with assms(3) one have "r = rc" "s' = s\<lparr>heap := m, world := w, trace := trace s @ [?call]\<rparr>"
      by (simp_all add: Let_def)
    with fail show ?thesis by simp
  next
    case neg
    with assms(3,4) one have "r = ENOENT"
      "s' = s\<lparr>heap := m, world := w, trace := trace s @ [?call]\<rparr>"
      by (simp_all add: Let_def)
    with assms(1) show ?thesis by simp
  next
    case ok
    with assms(3,4) one have "r = 0"
      "s' = s\<lparr>heap := m(p := value' pair), world := w,
              trace := trace s @ [?call, Store p (value' pair)]\<rparr>"
      by (simp_all add: Let_def)
    then show ?thesis by simp
  qed
qed

theorem hwprobe_one_store_iff_zero_witness:
  "(2 :: 32 word) \<noteq> 0
   \<and> fst (riscv_hwprobe_one 38 2 (Some probe_known) 4 5 9 machine0) = 0
   \<and> stores_through 5 (new_events machine0
        (snd (riscv_hwprobe_one 38 2 (Some probe_known) 4 5 9 machine0))) = [7]
   \<and> heap (snd (riscv_hwprobe_one 38 2 (Some probe_known) 4 5 9 machine0)) = (heap machine0)(5 := 7)
   \<and> fst (riscv_hwprobe_one 38 2 (Some probe_unknown) 4 5 9 machine0) = 2
   \<and> heap (snd (riscv_hwprobe_one 38 2 (Some probe_unknown) 4 5 9 machine0)) = heap machine0
   \<and> fst (riscv_hwprobe_one 38 2 (Some probe_scribbling) 4 5 9 machine0) = - 22
   \<and> heap (snd (riscv_hwprobe_one 38 2 (Some probe_scribbling) 4 5 9 machine0))
        = (heap machine0)(5 := 99)"
proof -
  have ne: "(2 :: 32 word) \<noteq> 0" by simp
  have c1: "probe_known [\<lparr>key = 4, value' = 9\<rparr>] 1 0 None 0 (heap machine0) (world machine0)
      = (0, [\<lparr>key = 4, value' = 7\<rparr>], heap machine0, ())"
    by (simp add: probe_known_def)
  have c2: "probe_unknown [\<lparr>key = 4, value' = 9\<rparr>] 1 0 None 0 (heap machine0) (world machine0)
      = (0, [\<lparr>key = - 1, value' = 0\<rparr>], heap machine0, ())"
    by (simp add: probe_unknown_def)
  have c3: "probe_scribbling [\<lparr>key = 4, value' = 9\<rparr>] 1 0 None 0 (heap machine0) (world machine0)
      = (- 22, [\<lparr>key = 4, value' = 9\<rparr>], (heap machine0)(5 := 99), ())"
    by (simp add: probe_scribbling_def)
  have r1: "fst (riscv_hwprobe_one 38 2 (Some probe_known) 4 5 9 machine0) = 0"
    and r2: "fst (riscv_hwprobe_one 38 2 (Some probe_unknown) 4 5 9 machine0) = 2"
    and r3: "fst (riscv_hwprobe_one 38 2 (Some probe_scribbling) 4 5 9 machine0) = - 22"
    by (simp_all add: riscv_hwprobe_one_def probe_known_def probe_unknown_def
        probe_scribbling_def pair_after_def)
  show ?thesis
    using hwprobe_one_store_iff_zero [where f = probe_known and ENOSYS = 38 and p = 5, OF ne c1 surjective_pairing refl]
      hwprobe_one_store_iff_zero [where f = probe_unknown and ENOSYS = 38 and p = 5, OF ne c2 surjective_pairing refl]
      hwprobe_one_store_iff_zero [where f = probe_scribbling and ENOSYS = 38 and p = 5, OF ne c3 surjective_pairing refl]
      r1 r2 r3
    by (simp add: pair_after_def)
qed

text \<open>
  C4: with a function pointer that is not null, the helper calls it exactly once, on an
  array of one pair whose key is the key argument, with \<^verbatim>\<open>pair_count\<close> 1, \<^verbatim>\<open>cpusetsize\<close> 0,
  \<^verbatim>\<open>cpus\<close> null and \<^verbatim>\<open>flags\<close> 0, in the memory and the world it was called in. What that one
  call hands back decides the rest. A return code of the call that is not zero is returned
  as it is; with return code 0 and a negative key handed back the helper returns
  \<^verbatim>\<open>ENOENT\<close>; in both cases the machine is the one that one call left, with the call in its
  trace and nothing else. Otherwise the helper stores the value handed back through the
  value pointer and returns 0: the machine is the one that one call left, with that value
  at the value pointer and the call and the store in its trace.
\<close>

theorem hwprobe_one_call_and_result:
  assumes "f [\<lparr>key = k, value' = u\<rparr>] 1 0 None 0 (heap s) (world s) = (rc, pairs, m, w)"
    and "riscv_hwprobe_one ENOSYS ENOENT (Some f) k p u s = (r, s')"
    and "pair = pair_after \<lparr>key = k, value' = u\<rparr> pairs"
  shows "probe_calls (new_events s s') = [Probe_call [\<lparr>key = k, value' = u\<rparr>] 1 0 None 0]
         \<and> world s' = w
         \<and> (rc \<noteq> 0 \<longrightarrow> r = rc
                \<and> s' = s\<lparr>heap := m, world := w,
                          trace := trace s @ [Probe_call [\<lparr>key = k, value' = u\<rparr>] 1 0 None 0]\<rparr>)
         \<and> (rc = 0 \<and> sint (key pair) < 0 \<longrightarrow> r = ENOENT
                \<and> s' = s\<lparr>heap := m, world := w,
                          trace := trace s @ [Probe_call [\<lparr>key = k, value' = u\<rparr>] 1 0 None 0]\<rparr>)
         \<and> (rc = 0 \<and> \<not> sint (key pair) < 0 \<longrightarrow> r = 0
                \<and> s' = s\<lparr>heap := m(p := value' pair), world := w,
                          trace := trace s @ [Probe_call [\<lparr>key = k, value' = u\<rparr>] 1 0 None 0,
                                              Store p (value' pair)]\<rparr>)"
proof -
  note one = hwprobe_one_some [where f = f, OF assms(1), of ENOSYS ENOENT p]
  let ?call = "Probe_call [\<lparr>key = k, value' = u\<rparr>] 1 0 None 0"
  consider (fail) "rc \<noteq> 0" | (neg) "rc = 0" "sint (key pair) < 0"
    | (ok) "rc = 0" "\<not> sint (key pair) < 0" by blast
  then show ?thesis
  proof cases
    case fail
    with assms(2) one have "r = rc" "s' = s\<lparr>heap := m, world := w, trace := trace s @ [?call]\<rparr>"
      by (simp_all add: Let_def)
    with fail show ?thesis by simp
  next
    case neg
    with assms(2,3) one have "r = ENOENT"
      "s' = s\<lparr>heap := m, world := w, trace := trace s @ [?call]\<rparr>"
      by (simp_all add: Let_def)
    with neg show ?thesis by simp
  next
    case ok
    with assms(2,3) one have "r = 0"
      "s' = s\<lparr>heap := m(p := value' pair), world := w,
              trace := trace s @ [?call, Store p (value' pair)]\<rparr>"
      by (simp_all add: Let_def)
    with ok show ?thesis by simp
  qed
qed

theorem hwprobe_one_call_and_result_witness:
  "riscv_hwprobe_one 38 2 (Some probe_known) 4 5 9 machine0
     = (0, machine0\<lparr>heap := (heap machine0)(5 := 7), world := (),
                    trace := trace machine0 @ [Probe_call [\<lparr>key = 4, value' = 9\<rparr>] 1 0 None 0,
                                               Store 5 7]\<rparr>)
   \<and> riscv_hwprobe_one 38 2 (Some probe_unknown) 4 5 9 machine0
     = (2, machine0\<lparr>heap := heap machine0, world := (),
                    trace := trace machine0 @ [Probe_call [\<lparr>key = 4, value' = 9\<rparr>] 1 0 None 0]\<rparr>)
   \<and> riscv_hwprobe_one 38 2 (Some probe_scribbling) 4 5 9 machine0
     = (- 22, machine0\<lparr>heap := (heap machine0)(5 := 99), world := (),
                    trace := trace machine0 @ [Probe_call [\<lparr>key = 4, value' = 9\<rparr>] 1 0 None 0]\<rparr>)"
proof -
  have c1: "probe_known [\<lparr>key = 4, value' = 9\<rparr>] 1 0 None 0 (heap machine0) (world machine0)
      = (0, [\<lparr>key = 4, value' = 7\<rparr>], heap machine0, ())"
    by (simp add: probe_known_def)
  have c2: "probe_unknown [\<lparr>key = 4, value' = 9\<rparr>] 1 0 None 0 (heap machine0) (world machine0)
      = (0, [\<lparr>key = - 1, value' = 0\<rparr>], heap machine0, ())"
    by (simp add: probe_unknown_def)
  have c3: "probe_scribbling [\<lparr>key = 4, value' = 9\<rparr>] 1 0 None 0 (heap machine0) (world machine0)
      = (- 22, [\<lparr>key = 4, value' = 9\<rparr>], (heap machine0)(5 := 99), ())"
    by (simp add: probe_scribbling_def)
  obtain r1 s1 where e1: "riscv_hwprobe_one 38 2 (Some probe_known) 4 5 9 machine0 = (r1, s1)"
    by (cases "riscv_hwprobe_one 38 2 (Some probe_known) 4 5 9 machine0")
  obtain r2 s2 where e2: "riscv_hwprobe_one 38 2 (Some probe_unknown) 4 5 9 machine0 = (r2, s2)"
    by (cases "riscv_hwprobe_one 38 2 (Some probe_unknown) 4 5 9 machine0")
  obtain r3 s3 where e3: "riscv_hwprobe_one 38 2 (Some probe_scribbling) 4 5 9 machine0 = (r3, s3)"
    by (cases "riscv_hwprobe_one 38 2 (Some probe_scribbling) 4 5 9 machine0")
  show ?thesis
    using hwprobe_one_call_and_result [where f = probe_known, OF c1 e1 refl]
      hwprobe_one_call_and_result [where f = probe_unknown, OF c2 e2 refl]
      hwprobe_one_call_and_result [where f = probe_scribbling, OF c3 e3 refl]
    by (simp add: e1 e2 e3 pair_after_def)
qed

section \<open>Properties of the Stream\<close>

subsection \<open>The retry loop\<close>

declare flush_pending.simps [simp del]

lemma flush_pending_empty: "write_end s = 0 \<Longrightarrow> flush_pending dev z s = (Inr (), s)"
  by (simp add: flush_pending.simps)

lemma flush_pending_failed:
  "write_end s \<noteq> 0 \<Longrightarrow> deviceWrite dev (handle s) (take (write_end s) (buffer s)) = (Inl e, h) \<Longrightarrow>
   flush_pending dev z s = (Inl (DeviceError (Raw e)),
      device_failed (Raw e) (note_write (take (write_end s) (buffer s)) (Inl e) h s))"
  by (simp add: flush_pending.simps [of dev z s])

lemma flush_pending_stuck:
  "write_end s \<noteq> 0 \<Longrightarrow> deviceWrite dev (handle s) (take (write_end s) (buffer s)) = (Inr 0, h) \<Longrightarrow>
   1 \<le> z \<Longrightarrow>
   flush_pending dev z s = (Inl (DeviceError Zero_progress),
      device_failed Zero_progress (note_write (take (write_end s) (buffer s)) (Inr 0) h s))"
  by (simp add: flush_pending.simps [of dev z s])

lemma flush_pending_retry:
  "write_end s \<noteq> 0 \<Longrightarrow> deviceWrite dev (handle s) (take (write_end s) (buffer s)) = (Inr 0, h) \<Longrightarrow>
   \<not> 1 \<le> z \<Longrightarrow>
   flush_pending dev z s =
     flush_pending dev (Suc z) (note_write (take (write_end s) (buffer s)) (Inr 0) h s)"
  by (simp add: flush_pending.simps [of dev z s])

lemma flush_pending_progress:
  "write_end s \<noteq> 0 \<Longrightarrow> deviceWrite dev (handle s) (take (write_end s) (buffer s)) = (Inr n, h) \<Longrightarrow>
   n \<noteq> 0 \<Longrightarrow>
   flush_pending dev z s =
     flush_pending dev 0 (advance n (note_write (take (write_end s) (buffer s)) (Inr n) h s))"
  by (simp add: flush_pending.simps [of dev z s])

lemma flush_pending_cases [case_names empty failed stuck retry progress]:
  assumes "\<And>dev z s. write_end s = 0 \<Longrightarrow> P dev z s (Inr (), s)"
    and "\<And>dev z s e h. write_end s \<noteq> 0 \<Longrightarrow>
           deviceWrite dev (handle s) (take (write_end s) (buffer s)) = (Inl e, h) \<Longrightarrow>
           P dev z s (Inl (DeviceError (Raw e)),
                  device_failed (Raw e) (note_write (take (write_end s) (buffer s)) (Inl e) h s))"
    and "\<And>dev z s h. write_end s \<noteq> 0 \<Longrightarrow>
           deviceWrite dev (handle s) (take (write_end s) (buffer s)) = (Inr 0, h) \<Longrightarrow> 1 \<le> z \<Longrightarrow>
           P dev z s (Inl (DeviceError Zero_progress),
                  device_failed Zero_progress (note_write (take (write_end s) (buffer s)) (Inr 0) h s))"
    and "\<And>dev z s h res. write_end s \<noteq> 0 \<Longrightarrow>
           deviceWrite dev (handle s) (take (write_end s) (buffer s)) = (Inr 0, h) \<Longrightarrow> z = 0 \<Longrightarrow>
           P dev (Suc 0) (note_write (take (write_end s) (buffer s)) (Inr 0) h s) res \<Longrightarrow> P dev z s res"
    and "\<And>dev z s n h res. write_end s \<noteq> 0 \<Longrightarrow>
           deviceWrite dev (handle s) (take (write_end s) (buffer s)) = (Inr n, h) \<Longrightarrow> n \<noteq> 0 \<Longrightarrow>
           P dev 0 (advance n (note_write (take (write_end s) (buffer s)) (Inr n) h s)) res \<Longrightarrow> P dev z s res"
  shows "P dev z s (flush_pending dev z s)"
proof (induction dev z s rule: flush_pending.induct)
  case (1 dev zeros s)
  show ?case
  proof (cases "write_end s = 0")
    case True
    then show ?thesis using assms(1) [OF True] by (simp add: flush_pending_empty)
  next
    case False
    obtain x h where w: "deviceWrite dev (handle s) (take (write_end s) (buffer s)) = (x, h)"
      by (cases "deviceWrite dev (handle s) (take (write_end s) (buffer s))")
    show ?thesis
    proof (cases x)
      case (Inl e)
      with w have we: "deviceWrite dev (handle s) (take (write_end s) (buffer s)) = (Inl e, h)"
        by simp
      show ?thesis
        using assms(2) [OF False we] flush_pending_failed [OF False we] by simp
    next
      case (Inr n)
      show ?thesis
      proof (cases "n = 0")
        case True
        show ?thesis
        proof (cases "1 \<le> zeros")
          case t: True
          have w0: "deviceWrite dev (handle s) (take (write_end s) (buffer s)) = (Inr 0, h)"
            using w Inr True by simp
          show ?thesis
            using assms(3) [OF False w0 t] flush_pending_stuck [OF False w0 t] by simp
        next
          case f: False
          then have z0: "zeros = 0" by simp
          have w0: "deviceWrite dev (handle s) (take (write_end s) (buffer s)) = (Inr 0, h)"
            using w Inr True by simp
          have "P dev (Suc 0) (note_write (take (write_end s) (buffer s)) (Inr 0) h s)
                  (flush_pending dev (Suc 0) (note_write (take (write_end s) (buffer s)) (Inr 0) h s))"
            using "1.IH"(1) [OF False w0 [symmetric] refl refl f] z0 by simp
          from assms(4) [OF False w0 z0 this] show ?thesis
            using flush_pending_retry [OF False w0 f] z0 by simp
        qed
      next
        case nz: False
        have wn: "deviceWrite dev (handle s) (take (write_end s) (buffer s)) = (Inr n, h)"
          using w Inr by simp
        from assms(5) [OF False wn nz "1.IH"(2) [OF False wn [symmetric] refl nz]]
        show ?thesis using flush_pending_progress [OF False wn nz] by simp
      qed
    qed
  qed
qed

lemma flush_pending_frame:
  "capacity (snd (flush_pending dev z s)) = capacity s
   \<and> mode (snd (flush_pending dev z s)) = mode s
   \<and> direction (snd (flush_pending dev z s)) = direction s
   \<and> eof_flag (snd (flush_pending dev z s)) = eof_flag s
   \<and> closed (snd (flush_pending dev z s)) = closed s
   \<and> read_pos (snd (flush_pending dev z s)) = read_pos s
   \<and> allocated (snd (flush_pending dev z s)) = allocated s"
  by (rule flush_pending_cases)
     (simp_all add: device_failed_def note_write_def advance_def)

lemma flush_pending_shrinks:
  "write_end (snd (flush_pending dev z s)) \<le> write_end s"
  by (rule flush_pending_cases [where P = "\<lambda>dev z s res. write_end (snd res) \<le> write_end s"])
     (simp_all add: device_failed_def note_write_def advance_def)

lemma flush_pending_length:
  "length (buffer s) = write_end s \<Longrightarrow>
      length (buffer (snd (flush_pending dev z s))) = write_end (snd (flush_pending dev z s))"
  by (rule flush_pending_cases [where P = "\<lambda>dev z s res. length (buffer s) = write_end s \<longrightarrow>
      length (buffer (snd res)) = write_end (snd res)", rule_format])
     (simp_all add: device_failed_def note_write_def advance_def)

lemma flush_pending_outcome:
  "case fst (flush_pending dev z s) of
     Inr u \<Rightarrow> write_end (snd (flush_pending dev z s)) = 0
              \<and> error_flag (snd (flush_pending dev z s)) = error_flag s
              \<and> sticky (snd (flush_pending dev z s)) = sticky s
   | Inl e \<Rightarrow> error_flag (snd (flush_pending dev z s))
              \<and> e = DeviceError (sticky (snd (flush_pending dev z s)))"
  by (rule flush_pending_cases [where P = "\<lambda>dev z s res. case fst res of
     Inr u \<Rightarrow> write_end (snd res) = 0 \<and> error_flag (snd res) = error_flag s
              \<and> sticky (snd res) = sticky s
   | Inl e \<Rightarrow> error_flag (snd res) \<and> e = DeviceError (sticky (snd res))"])
     (simp_all add: device_failed_def note_write_def advance_def split: sum.splits)

lemma flush_pending_calls:
  "z \<le> 1 \<Longrightarrow> \<exists>cs. calls (snd (flush_pending dev z s)) = calls s @ cs
       \<and> list_all is_write cs \<and> length cs \<le> 2 * write_end s - z"
proof (rule flush_pending_cases [where P = "\<lambda>dev z s res. z \<le> 1 \<longrightarrow> (\<exists>cs. calls (snd res) = calls s @ cs
       \<and> list_all is_write cs \<and> length cs \<le> 2 * write_end s - z)", rule_format], goal_cases)
  case (1 dev z s)
  then show ?case by simp
next
  case (2 dev z s e h)
  then show ?case by (auto simp add: device_failed_def note_write_def)
next
  case (3 dev z s h)
  then show ?case by (auto simp add: device_failed_def note_write_def)
next
  case (4 dev z s h res)
  then obtain cs where "calls (snd res) = calls (note_write (take (write_end s) (buffer s)) (Inr 0) h s) @ cs"
    "list_all is_write cs" "length cs \<le> 2 * write_end (note_write (take (write_end s) (buffer s)) (Inr 0) h s) - Suc 0"
    by auto
  with 4 show ?case by (auto simp add: note_write_def)
next
  case (5 dev z s n h res)
  then obtain cs where "calls (snd res) = calls (advance n (note_write (take (write_end s) (buffer s)) (Inr n) h s)) @ cs"
    "list_all is_write cs" "length cs \<le> 2 * write_end (advance n (note_write (take (write_end s) (buffer s)) (Inr n) h s)) - 0"
    by auto
  with 5 show ?case by (auto simp add: note_write_def advance_def)
next
  case 6
  then show ?case by simp
qed

lemma new_calls_append: "calls s' = calls s @ cs \<Longrightarrow> new_calls s s' = cs"
  by (simp add: new_calls_def)

lemma new_calls_same: "new_calls s s = []"
  by (simp add: new_calls_def)

lemma last_two_zero_Cons: "last_two_zero cs \<Longrightarrow> last_two_zero (c # cs)"
  by (induction cs rule: last_two_zero.induct) auto

lemma flush_pending_raw:
  "\<exists>cs. calls (snd (flush_pending dev z s)) = calls s @ cs
     \<and> (\<forall>c. fst (flush_pending dev z s) = Inl (DeviceError (Raw c))
            \<longrightarrow> cs \<noteq> [] \<and> failed_write c (last cs))
     \<and> fst (flush_pending dev z s) \<noteq> Inl UsageError"
proof (rule flush_pending_cases [where P = "\<lambda>dev z s res. \<exists>cs. calls (snd res) = calls s @ cs
     \<and> (\<forall>c. fst res = Inl (DeviceError (Raw c)) \<longrightarrow> cs \<noteq> [] \<and> failed_write c (last cs))
     \<and> fst res \<noteq> Inl UsageError"], goal_cases)
  case (1 dev z s)
  then show ?case by simp
next
  case (2 dev z s e h)
  then show ?case by (simp add: device_failed_def note_write_def)
next
  case (3 dev z s h)
  then show ?case by (simp add: device_failed_def note_write_def)
next
  case (4 dev z s h res)
  then obtain cs where cs: "calls (snd res) = calls s @ Dev_write (take (write_end s) (buffer s)) (Inr 0) # cs"
     "\<forall>c. fst res = Inl (DeviceError (Raw c)) \<longrightarrow> cs \<noteq> [] \<and> failed_write c (last cs)"
     "fst res \<noteq> Inl UsageError"
    by (auto simp add: note_write_def)
  show ?case
    by (rule exI [of _ "Dev_write (take (write_end s) (buffer s)) (Inr 0) # cs"]) (simp add: cs)
next
  case (5 dev z s n h res)
  then obtain cs where cs: "calls (snd res) = calls s @ Dev_write (take (write_end s) (buffer s)) (Inr n) # cs"
     "\<forall>c. fst res = Inl (DeviceError (Raw c)) \<longrightarrow> cs \<noteq> [] \<and> failed_write c (last cs)"
     "fst res \<noteq> Inl UsageError"
    by (auto simp add: note_write_def advance_def)
  show ?case
    by (rule exI [of _ "Dev_write (take (write_end s) (buffer s)) (Inr n) # cs"]) (simp add: cs)
qed

lemma flush_pending_zero:
  "\<exists>cs. calls (snd (flush_pending dev z s)) = calls s @ cs
     \<and> (fst (flush_pending dev z s) = Inl (DeviceError Zero_progress)
            \<longrightarrow> last_two_zero cs \<or> (z \<noteq> 0 \<and> length cs = 1 \<and> zero_write (last cs)))"
proof (rule flush_pending_cases [where P = "\<lambda>dev z s res. \<exists>cs. calls (snd res) = calls s @ cs
     \<and> (fst res = Inl (DeviceError Zero_progress)
            \<longrightarrow> last_two_zero cs \<or> (z \<noteq> 0 \<and> length cs = 1 \<and> zero_write (last cs)))"], goal_cases)
  case (1 dev z s)
  then show ?case by simp
next
  case (2 dev z s e h)
  then show ?case by (simp add: device_failed_def note_write_def)
next
  case (3 dev z s h)
  then show ?case by (simp add: device_failed_def note_write_def)
next
  case (4 dev z s h res)
  then obtain cs where cs: "calls (snd res) = calls s @ Dev_write (take (write_end s) (buffer s)) (Inr 0) # cs"
     "fst res = Inl (DeviceError Zero_progress)
        \<longrightarrow> last_two_zero cs \<or> (length cs = 1 \<and> zero_write (last cs))"
    by (auto simp add: note_write_def)
  have "fst res = Inl (DeviceError Zero_progress)
        \<longrightarrow> last_two_zero (Dev_write (take (write_end s) (buffer s)) (Inr 0) # cs)"
  proof
    assume "fst res = Inl (DeviceError Zero_progress)"
    with cs(2) consider "last_two_zero cs" | "length cs = 1" "zero_write (last cs)" by blast
    then show "last_two_zero (Dev_write (take (write_end s) (buffer s)) (Inr 0) # cs)"
    proof cases
      case 1
      then show ?thesis by (rule last_two_zero_Cons)
    next
      case 2
      then obtain c where "cs = [c]" by (cases cs) auto
      with 2 show ?thesis by simp
    qed
  qed
  then show ?case
    by (intro exI [of _ "Dev_write (take (write_end s) (buffer s)) (Inr 0) # cs"]) (simp add: cs(1))
next
  case (5 dev z s n h res)
  then obtain cs where cs: "calls (snd res) = calls s @ Dev_write (take (write_end s) (buffer s)) (Inr n) # cs"
     "fst res = Inl (DeviceError Zero_progress) \<longrightarrow> last_two_zero cs"
    by (auto simp add: note_write_def advance_def)
  then show ?case
    by (intro exI [of _ "Dev_write (take (write_end s) (buffer s)) (Inr n) # cs"])
       (simp add: last_two_zero_Cons)
qed

subsection \<open>Executions and their device calls\<close>

lemma tracksI:
  "calls s' = calls s @ cs \<Longrightarrow> capacity s' = capacity s \<Longrightarrow>
   eof_flag s' = (eof_flag s \<or> list_ex empty_read cs) \<Longrightarrow> tracks s s'"
  by (simp add: tracks_def new_calls_def)

lemma tracks_silent:
  "calls s' = calls s \<Longrightarrow> capacity s' = capacity s \<Longrightarrow> eof_flag s' = eof_flag s \<Longrightarrow> tracks s s'"
  by (simp add: tracks_def new_calls_def)

lemma new_calls_silent: "calls s' = calls s \<Longrightarrow> new_calls s s' = []"
  by (simp add: new_calls_def)

lemma tracks_refl: "tracks s s"
  by (simp add: tracks_silent)

lemma tracks_calls: "tracks s s' \<Longrightarrow> calls s' = calls s @ new_calls s s'"
proof -
  assume "tracks s s'"
  then have "take (length (calls s)) (calls s') = calls s" by (simp add: tracks_def)
  then have "calls s @ drop (length (calls s)) (calls s') = calls s'"
    by (metis append_take_drop_id)
  then show ?thesis by (simp add: new_calls_def)
qed

lemma new_calls_trans:
  assumes "tracks s s'" and "tracks s' s''"
  shows "new_calls s s'' = new_calls s s' @ new_calls s' s''"
proof -
  have "calls s'' = calls s @ (new_calls s s' @ new_calls s' s'')"
    using tracks_calls [OF assms(1)] tracks_calls [OF assms(2)] by simp
  then show ?thesis by (rule new_calls_append)
qed

lemma tracks_trans:
  assumes "tracks s s'" and "tracks s' s''"
  shows "tracks s s''"
proof (rule tracksI)
  show "calls s'' = calls s @ (new_calls s s' @ new_calls s' s'')"
    using tracks_calls [OF assms(1)] tracks_calls [OF assms(2)] by simp
  show "capacity s'' = capacity s" using assms by (simp add: tracks_def)
  show "eof_flag s'' = (eof_flag s \<or> list_ex empty_read (new_calls s s' @ new_calls s' s''))"
    using assms by (auto simp add: tracks_def)
qed

lemma tracks_capacity: "tracks s s' \<Longrightarrow> capacity s' = capacity s"
  by (simp add: tracks_def)

lemma write_not_empty_read: "list_all is_write cs \<Longrightarrow> \<not> list_ex empty_read cs"
proof (induction cs)
  case Nil
  then show ?case by simp
next
  case (Cons c cs)
  then show ?case by (cases c) auto
qed

subsection \<open>The retry loop, continued\<close>

lemma flush_pending_writes:
  "\<exists>cs. calls (snd (flush_pending dev z s)) = calls s @ cs \<and> list_all is_write cs"
proof (rule flush_pending_cases [where P = "\<lambda>dev z s res.
         \<exists>cs. calls (snd res) = calls s @ cs \<and> list_all is_write cs"], goal_cases)
  case (1 dev z s)
  then show ?case by simp
next
  case (2 dev z s e h)
  then show ?case by (simp add: device_failed_def note_write_def)
next
  case (3 dev z s h)
  then show ?case by (simp add: device_failed_def note_write_def)
next
  case (4 dev z s h res)
  then show ?case by (auto simp add: note_write_def)
next
  case (5 dev z s n h res)
  then show ?case by (auto simp add: note_write_def advance_def)
qed

lemma flush_pending_new_writes:
  "list_all is_write (new_calls s (snd (flush_pending dev z s)))"
  using flush_pending_writes [of dev z s] by (auto simp add: new_calls_append)

lemma flush_pending_tracks: "tracks s (snd (flush_pending dev z s))"
proof -
  obtain cs where cs: "calls (snd (flush_pending dev z s)) = calls s @ cs" "list_all is_write cs"
    using flush_pending_writes [of dev z s] by auto
  show ?thesis
    by (rule tracksI [OF cs(1)]) (simp_all add: flush_pending_frame write_not_empty_read [OF cs(2)])
qed

lemma flush_pending_bound:
  "z \<le> 1 \<Longrightarrow> length (new_calls s (snd (flush_pending dev z s))) \<le> 2 * write_end s - z"
  using flush_pending_calls [of z dev s] by (auto simp add: new_calls_append)

lemma flush_pending_ok:
  assumes "stream_ok s" and "read_pos s = 0"
  shows "stream_ok (snd (flush_pending dev z s))"
proof -
  let ?s = "snd (flush_pending dev z s)"
  have len: "length (buffer ?s) = write_end ?s"
    using assms(1) by (intro flush_pending_length) (simp add: stream_ok_def)
  have le: "write_end ?s \<le> write_end s" by (rule flush_pending_shrinks)
  show ?thesis
    using assms len le by (auto simp add: stream_ok_def cursor_inv_def flush_pending_frame)
qed

subsection \<open>The write path\<close>

lemma to_writing_tracks: "tracks s (to_writing s)"
  by (rule tracks_silent) (simp_all add: to_writing_def discard_buffer_def)

lemma to_writing_calls: "calls (to_writing s) = calls s"
  by (simp add: to_writing_def discard_buffer_def)

lemma to_writing_ok:
  "stream_ok s \<Longrightarrow> stream_ok (to_writing s) \<and> read_pos (to_writing s) = 0
     \<and> direction (to_writing s) = Writing"
  by (cases "direction s")
     (auto simp add: to_writing_def discard_buffer_def stream_ok_def cursor_inv_def)

lemma make_room_tracks: "tracks s (snd (make_room dev s))"
  by (simp add: make_room_def flush_pending_tracks tracks_refl)

lemma make_room_ok:
  "stream_ok s \<Longrightarrow> read_pos s = 0 \<Longrightarrow>
     stream_ok (snd (make_room dev s)) \<and> read_pos (snd (make_room dev s)) = 0
     \<and> direction (snd (make_room dev s)) = direction s"
  by (simp add: make_room_def flush_pending_ok flush_pending_frame)

lemma make_room_room:
  assumes "stream_ok s" and "fst (make_room dev s) = Inr u"
  shows "write_end (snd (make_room dev s)) < capacity s"
proof (cases "capacity s \<le> write_end s")
  case True
  with assms(2) have "fst (flush_pending dev 0 s) = Inr u" by (simp add: make_room_def)
  with flush_pending_outcome [of dev 0 s] have "write_end (snd (flush_pending dev 0 s)) = 0"
    by simp
  with True assms(1) show ?thesis by (simp add: make_room_def stream_ok_def)
next
  case False
  then show ?thesis by (simp add: make_room_def)
qed

lemma make_room_bound:
  assumes "stream_ok s"
  shows "length (new_calls s (snd (make_room dev s))) \<le> 2 * capacity s"
proof (cases "capacity s \<le> write_end s")
  case True
  have "length (new_calls s (snd (flush_pending dev 0 s))) \<le> 2 * write_end s - 0"
    by (rule flush_pending_bound) simp
  moreover have "write_end s \<le> capacity s"
    using assms by (simp add: stream_ok_def cursor_inv_def)
  ultimately show ?thesis using True by (simp add: make_room_def)
next
  case False
  then show ?thesis by (simp add: make_room_def new_calls_same)
qed

lemma append_byte_ok:
  "stream_ok s \<Longrightarrow> direction s = Writing \<Longrightarrow> write_end s < capacity s \<Longrightarrow>
     stream_ok (append_byte b s) \<and> read_pos (append_byte b s) = 0"
  by (simp add: append_byte_def stream_ok_def cursor_inv_def)

lemma append_byte_tracks: "tracks s (append_byte b s)"
  by (rule tracks_silent) (simp_all add: append_byte_def)

lemma put_byte_tracks: "tracks s (snd (put_byte dev b s))"
proof (cases "flush_after b s")
  case True
  have "tracks s (snd (flush_pending dev 0 (append_byte b s)))"
    by (rule tracks_trans [OF append_byte_tracks flush_pending_tracks])
  with True show ?thesis by (simp add: put_byte_def)
next
  case False
  then show ?thesis by (simp add: put_byte_def append_byte_tracks)
qed

lemma put_byte_ok:
  assumes "stream_ok s" and "direction s = Writing" and "write_end s < capacity s"
  shows "stream_ok (snd (put_byte dev b s))"
  using append_byte_ok [OF assms, of b]
  by (simp add: put_byte_def flush_pending_ok)

lemma put_byte_bound:
  assumes "write_end s < capacity s"
  shows "length (new_calls s (snd (put_byte dev b s))) \<le> 2 * capacity s"
proof (cases "flush_after b s")
  case True
  have "new_calls s (snd (flush_pending dev 0 (append_byte b s)))
          = new_calls s (append_byte b s) @ new_calls (append_byte b s) (snd (flush_pending dev 0 (append_byte b s)))"
    by (rule new_calls_trans [OF append_byte_tracks flush_pending_tracks])
  moreover have "new_calls s (append_byte b s) = []"
    by (rule new_calls_silent) (simp add: append_byte_def)
  moreover have "length (new_calls (append_byte b s) (snd (flush_pending dev 0 (append_byte b s))))
          \<le> 2 * write_end (append_byte b s) - 0"
    by (rule flush_pending_bound) simp
  moreover have "write_end (append_byte b s) \<le> capacity s"
    using assms by (simp add: append_byte_def)
  ultimately show ?thesis using True by (simp add: put_byte_def)
next
  case False
  have "new_calls s (append_byte b s) = []"
    by (rule new_calls_silent) (simp add: append_byte_def)
  with False show ?thesis by (simp add: put_byte_def)
qed

lemma writeByte_summary:
  "tracks s (snd (writeByte dev b s))
   \<and> (stream_ok s \<longrightarrow> stream_ok (snd (writeByte dev b s))
         \<and> length (new_calls s (snd (writeByte dev b s))) \<le> 4 * capacity s)"
proof (cases "closed s \<or> error_flag s")
  case True
  then show ?thesis by (auto simp add: writeByte_def tracks_refl new_calls_same)
next
  case False
  let ?t = "to_writing s"
  let ?m = "snd (make_room dev ?t)"
  have t1: "tracks s ?m" by (rule tracks_trans [OF to_writing_tracks make_room_tracks])
  have "new_calls s ?m = new_calls s ?t @ new_calls ?t ?m"
    by (rule new_calls_trans [OF to_writing_tracks make_room_tracks])
  moreover have "new_calls s ?t = []"
    by (rule new_calls_silent [OF to_writing_calls])
  ultimately have n1: "new_calls s ?m = new_calls ?t ?m" by simp
  have cap: "capacity ?t = capacity s" "capacity ?m = capacity s"
    using tracks_capacity [OF to_writing_tracks, of s] tracks_capacity [OF t1] by simp_all
  show ?thesis
  proof (cases "fst (make_room dev ?t)")
    case (Inl e)
    then have eq: "writeByte dev b s = (Inl e, ?m)"
      using False by (cases "make_room dev (to_writing s)") (simp add: writeByte_def)
    show ?thesis
      using t1 n1 to_writing_ok [of s] make_room_ok [of ?t dev] make_room_bound [of ?t dev] cap
      by (auto simp add: eq)
  next
    case (Inr u)
    then have eq: "writeByte dev b s = put_byte dev b ?m"
      using False by (cases "make_room dev (to_writing s)") (simp add: writeByte_def)
    let ?p = "snd (put_byte dev b ?m)"
    have t2: "tracks s ?p" by (rule tracks_trans [OF t1 put_byte_tracks])
    have "new_calls s ?p = new_calls s ?m @ new_calls ?m ?p"
      by (rule new_calls_trans [OF t1 put_byte_tracks])
    then have n2: "new_calls s ?p = new_calls ?t ?m @ new_calls ?m ?p"
      using n1 by simp
    have ok: "stream_ok ?p \<and> length (new_calls s ?p) \<le> 4 * capacity s" if "stream_ok s"
    proof -
      have a: "stream_ok ?t" "read_pos ?t = 0" "direction ?t = Writing"
        using to_writing_ok [OF that] by simp_all
      have b: "stream_ok ?m" "direction ?m = Writing"
        using make_room_ok [OF a(1,2), of dev] a(3) by simp_all
      have c: "write_end ?m < capacity ?m"
        using make_room_room [OF a(1) Inr] cap by simp
      have "length (new_calls ?t ?m) \<le> 2 * capacity s"
        using make_room_bound [OF a(1), of dev] cap by simp
      moreover have "length (new_calls ?m ?p) \<le> 2 * capacity s"
        using put_byte_bound [OF c, of dev b] cap by simp
      ultimately show ?thesis using put_byte_ok [OF b c, of dev b] n2 by simp
    qed
    show ?thesis using t2 ok by (simp add: eq)
  qed
qed

lemma writeBytes_summary:
  "tracks s (snd (writeBytes dev bs s))
   \<and> (stream_ok s \<longrightarrow> stream_ok (snd (writeBytes dev bs s))
         \<and> length (new_calls s (snd (writeBytes dev bs s))) \<le> length bs * (4 * capacity s))"
proof (induction bs arbitrary: s)
  case Nil
  then show ?case by (simp add: tracks_refl new_calls_same)
next
  case (Cons b bs)
  let ?w = "snd (writeByte dev b s)"
  note w = writeByte_summary [of s dev b]
  show ?case
  proof (cases "fst (writeByte dev b s)")
    case (Inl e)
    then have eq: "writeBytes dev (b # bs) s = (Inl e, ?w)"
      by (cases "writeByte dev b s") simp
    show ?thesis unfolding eq using w by auto
  next
    case (Inr u)
    let ?r = "snd (writeBytes dev bs ?w)"
    have eq: "snd (writeBytes dev (b # bs) s) = ?r"
      using Inr by (cases "writeByte dev b s"; cases "writeBytes dev bs ?w"; cases "fst (writeBytes dev bs ?w)")
        auto
    note r = Cons.IH [of ?w]
    have t: "tracks s ?r" using w r by (blast intro: tracks_trans)
    have n: "new_calls s ?r = new_calls s ?w @ new_calls ?w ?r"
      using w r by (blast intro: new_calls_trans)
    have cap: "capacity ?w = capacity s" using w by (simp add: tracks_capacity)
    show ?thesis unfolding eq using t n w r cap by auto
  qed
qed

lemma flush_summary:
  "tracks s (snd (flush dev s))
   \<and> (stream_ok s \<longrightarrow> stream_ok (snd (flush dev s)))
   \<and> length (new_calls s (snd (flush dev s))) \<le> 2 * write_end s"
proof (cases "\<not> closed s \<and> \<not> error_flag s \<and> direction s = Writing")
  case True
  then have eq: "flush dev s = flush_pending dev 0 s" by (simp add: flush_def)
  have "stream_ok s \<longrightarrow> read_pos s = 0" using True by (simp add: stream_ok_def)
  then show ?thesis
    using flush_pending_bound [of 0 s dev]
    by (auto simp add: eq flush_pending_tracks flush_pending_ok)
next
  case False
  then have eq: "snd (flush dev s) = s" by (auto simp add: flush_def)
  show ?thesis by (simp add: eq tracks_refl new_calls_same)
qed

subsection \<open>The read path\<close>

lemma flush_if_writing_summary:
  "tracks s (snd (flush_if_writing dev s))
   \<and> (stream_ok s \<longrightarrow> stream_ok (snd (flush_if_writing dev s)))
   \<and> direction (snd (flush_if_writing dev s)) = direction s"
proof (cases "direction s = Writing")
  case True
  then have "stream_ok s \<longrightarrow> read_pos s = 0" by (simp add: stream_ok_def)
  with True show ?thesis
    by (auto simp add: flush_if_writing_def flush_pending_tracks flush_pending_ok flush_pending_frame)
next
  case False
  then show ?thesis by (simp add: flush_if_writing_def tracks_refl)
qed

lemma to_reading_summary:
  "tracks s (to_reading s) \<and> (stream_ok s \<longrightarrow> stream_ok (to_reading s))
   \<and> direction (to_reading s) = Reading"
proof -
  have "tracks s (to_reading s)"
    by (rule tracks_silent) (simp_all add: to_reading_def)
  then show ?thesis
    by (auto simp add: to_reading_def stream_ok_def cursor_inv_def split: if_splits)
qed

lemma dev_read_cases:
  obtains (failed) e h where "deviceRead dev (handle s) (capacity s) = (Inl e, h)"
      "dev_read dev s = (Inl e, s\<lparr>handle := h, calls := calls s @ [Dev_read (capacity s) (Inl e)]\<rparr>)"
  | (got) bs h where "deviceRead dev (handle s) (capacity s) = (Inr bs, h)"
      "dev_read dev s = (Inr (take (capacity s) bs),
         s\<lparr>handle := h, calls := calls s @ [Dev_read (capacity s) (Inr (take (capacity s) bs))]\<rparr>)"
proof (cases "deviceRead dev (handle s) (capacity s)")
  case (Pair r h)
  show ?thesis
  proof (cases r)
    case (Inl e)
    with Pair show ?thesis by (intro failed [of e h]) (simp_all add: dev_read_def)
  next
    case (Inr bs)
    with Pair show ?thesis by (intro got [of bs h]) (simp_all add: dev_read_def)
  qed
qed

lemma refill_summary:
  "tracks s (snd (refill dev s))
   \<and> (stream_ok s \<and> direction s = Reading \<longrightarrow> stream_ok (snd (refill dev s)))"
proof (cases rule: dev_read_cases [of dev s])
  case (failed e h)
  have "tracks s (snd (refill dev s))"
    by (rule tracksI [where cs = "[Dev_read (capacity s) (Inl e)]"])
       (simp_all add: refill_def failed device_failed_def)
  then show ?thesis
    by (simp add: refill_def failed device_failed_def stream_ok_def cursor_inv_def)
next
  case (got bs h)
  show ?thesis
  proof (cases "take (capacity s) bs")
    case Nil
    have "tracks s (snd (refill dev s))"
      by (rule tracksI [where cs = "[Dev_read (capacity s) (Inr [])]"])
         (simp_all add: refill_def got Nil)
    then show ?thesis
      by (simp add: refill_def got Nil stream_ok_def cursor_inv_def)
  next
    case (Cons b rest)
    have "tracks s (snd (refill dev s))"
      by (rule tracksI [where cs = "[Dev_read (capacity s) (Inr (b # rest))]"])
         (simp_all add: refill_def got Cons)
    moreover have "length (b # rest) \<le> capacity s"
      using Cons [symmetric] by simp
    ultimately show ?thesis
      by (simp add: refill_def got Cons stream_ok_def cursor_inv_def)
  qed
qed

lemma next_byte_summary:
  "tracks s (snd (next_byte dev s))
   \<and> (stream_ok s \<and> direction s = Reading \<longrightarrow> stream_ok (snd (next_byte dev s)))"
proof (cases "unread s")
  case Nil
  then show ?thesis using refill_summary [of s dev] by (simp add: next_byte_def)
next
  case (Cons b rest)
  have t: "tracks s (s\<lparr>read_pos := Suc (read_pos s)\<rparr>)"
    by (rule tracks_silent) simp_all
  have "length (unread s) = min (write_end s) (length (buffer s)) - read_pos s"
    by (simp add: unread_def)
  with Cons have "read_pos s < write_end s" by simp
  with t Cons show ?thesis
    by (simp add: next_byte_def stream_ok_def cursor_inv_def)
qed

lemma readByte_summary:
  "tracks s (snd (readByte dev s)) \<and> (stream_ok s \<longrightarrow> stream_ok (snd (readByte dev s)))"
proof (cases "closed s \<or> error_flag s")
  case True
  then show ?thesis by (auto simp add: readByte_def tracks_refl)
next
  case False
  let ?f = "snd (flush_if_writing dev s)"
  note f = flush_if_writing_summary [of s dev]
  show ?thesis
  proof (cases "fst (flush_if_writing dev s)")
    case (Inl e)
    then have eq: "readByte dev s = (Error e, ?f)"
      using False by (cases "flush_if_writing dev s") (simp add: readByte_def)
    show ?thesis unfolding eq using f by simp
  next
    case (Inr u)
    then have eq: "readByte dev s = next_byte dev (to_reading ?f)"
      using False by (cases "flush_if_writing dev s") (simp add: readByte_def)
    note r = to_reading_summary [of ?f]
    note n = next_byte_summary [of "to_reading ?f" dev]
    have "tracks s (snd (next_byte dev (to_reading ?f)))"
      using f r n by (blast intro: tracks_trans)
    then show ?thesis unfolding eq using f r n by simp
  qed
qed

lemma readBytes_summary:
  "tracks s (snd (readBytes dev n s)) \<and> (stream_ok s \<longrightarrow> stream_ok (snd (readBytes dev n s)))"
proof (induction n arbitrary: s)
  case 0
  then show ?case by (simp add: tracks_refl)
next
  case (Suc n)
  let ?r = "snd (readByte dev s)"
  note r = readByte_summary [of s dev]
  show ?case
  proof (cases "fst (readByte dev s)")
    case (Byte b)
    then have eq: "snd (readBytes dev (Suc n) s) = snd (readBytes dev n ?r)"
      by (cases "readByte dev s"; cases "readBytes dev n ?r") auto
    have "tracks s (snd (readBytes dev n ?r))"
      using r Suc.IH [of ?r] by (blast intro: tracks_trans)
    then show ?thesis unfolding eq using r Suc.IH [of ?r] by simp
  next
    case EndOfStream
    then have eq: "snd (readBytes dev (Suc n) s) = ?r"
      by (cases "readByte dev s") auto
    show ?thesis unfolding eq using r by simp
  next
    case (Error e)
    then have eq: "snd (readBytes dev (Suc n) s) = ?r"
      by (cases "readByte dev s") auto
    show ?thesis unfolding eq using r by simp
  qed
qed

subsection \<open>Seek, push back, close\<close>

lemma discard_buffer_summary:
  "tracks s (discard_buffer s) \<and> (stream_ok s \<longrightarrow> stream_ok (discard_buffer s))
   \<and> write_end (discard_buffer s) = 0"
proof -
  have "tracks s (discard_buffer s)"
    by (rule tracks_silent) (simp_all add: discard_buffer_def)
  then show ?thesis
    by (simp add: discard_buffer_def stream_ok_def cursor_inv_def)
qed

lemma dev_seek_summary:
  "tracks s (snd (dev_seek dev off wh s))
   \<and> (stream_ok s \<and> write_end s = 0 \<longrightarrow> stream_ok (snd (dev_seek dev off wh s)))"
proof (cases "deviceSeek dev (handle s) off wh")
  case (Pair r h)
  show ?thesis
  proof (cases r)
    case (Inl e)
    have "tracks s (snd (dev_seek dev off wh s))"
      by (rule tracksI [where cs = "[Dev_seek off wh (Inl e)]"])
         (simp_all add: dev_seek_def Pair Inl device_failed_def)
    then show ?thesis
      by (simp add: dev_seek_def Pair Inl device_failed_def stream_ok_def cursor_inv_def)
  next
    case (Inr pos)
    have "tracks s (snd (dev_seek dev off wh s))"
      by (rule tracksI [where cs = "[Dev_seek off wh (Inr pos)]"])
         (simp_all add: dev_seek_def Pair Inr)
    then show ?thesis
      by (simp add: dev_seek_def Pair Inr stream_ok_def cursor_inv_def)
  qed
qed

lemma seek_summary:
  "tracks s (snd (seek dev off wh s)) \<and> (stream_ok s \<longrightarrow> stream_ok (snd (seek dev off wh s)))"
proof (cases "closed s \<or> error_flag s")
  case True
  then show ?thesis by (auto simp add: seek_def tracks_refl)
next
  case False
  let ?f = "snd (flush_if_writing dev s)"
  note f = flush_if_writing_summary [of s dev]
  show ?thesis
  proof (cases "fst (flush_if_writing dev s)")
    case (Inl e)
    then have eq: "seek dev off wh s = (Inl e, ?f)"
      using False by (cases "flush_if_writing dev s") (simp add: seek_def)
    show ?thesis unfolding eq using f by simp
  next
    case (Inr u)
    then have eq: "seek dev off wh s = dev_seek dev off wh (discard_buffer ?f)"
      using False by (cases "flush_if_writing dev s") (simp add: seek_def)
    note d = discard_buffer_summary [of ?f]
    note k = dev_seek_summary [of "discard_buffer ?f" dev off wh]
    have "tracks s (snd (dev_seek dev off wh (discard_buffer ?f)))"
      using f d k by (blast intro: tracks_trans)
    then show ?thesis unfolding eq using f d k by simp
  qed
qed

lemma pushBack_summary:
  "tracks s (snd (pushBack dev b s)) \<and> (stream_ok s \<longrightarrow> stream_ok (snd (pushBack dev b s)))"
proof -
  have "tracks s (snd (pushBack dev b s))"
    by (rule tracks_silent) (simp_all add: pushBack_def)
  then show ?thesis
    by (auto simp add: pushBack_def stream_ok_def cursor_inv_def)
qed

lemma close_summary:
  "tracks s (snd (close dev s)) \<and> (stream_ok s \<longrightarrow> stream_ok (snd (close dev s)))"
proof (cases "closed s")
  case True
  then show ?thesis by (simp add: close_def tracks_refl)
next
  case False
  let ?f = "snd (flush dev s)"
  note f = flush_summary [of s dev]
  obtain rc h where c: "deviceClose dev (handle ?f) = (rc, h)"
    by (cases "deviceClose dev (handle ?f)")
  let ?c = "(discard_buffer ?f)\<lparr>handle := h, calls := calls ?f @ [Dev_close rc],
              allocated := False, closed := True, direction := Idle\<rparr>"
  have t: "tracks ?f ?c"
    by (rule tracksI [where cs = "[Dev_close rc]"]) (simp_all add: discard_buffer_def)
  have ok: "stream_ok ?f \<longrightarrow> stream_ok ?c"
    by (simp add: discard_buffer_def stream_ok_def cursor_inv_def)
  have eq: "snd (close dev s) = ?c \<or> (\<exists>e. snd (close dev s) = device_failed e ?c)"
    using False c by (cases "flush dev s"; cases rc; cases "fst (flush dev s)")
      (auto simp add: close_def Let_def)
  have df: "tracks ?c (device_failed e ?c) \<and> (stream_ok ?c \<longrightarrow> stream_ok (device_failed e ?c))" for e
  proof -
    have "tracks ?c (device_failed e ?c)"
      by (rule tracks_silent) (simp_all add: device_failed_def)
    then show ?thesis by (simp add: device_failed_def stream_ok_def cursor_inv_def)
  qed
  from eq show ?thesis
  proof
    assume e: "snd (close dev s) = ?c"
    have "tracks s ?c" using f t by (blast intro: tracks_trans)
    then show ?thesis unfolding e using f ok by simp
  next
    assume "\<exists>e. snd (close dev s) = device_failed e ?c"
    then obtain e where e: "snd (close dev s) = device_failed e ?c" by blast
    have "tracks s (device_failed e ?c)" using f t df [of e] by (blast intro: tracks_trans)
    then show ?thesis unfolding e using f ok df [of e] by simp
  qed
qed

lemma clearError_ok: "stream_ok s \<Longrightarrow> stream_ok (clearError s)"
  by (simp add: clearError_def stream_ok_def cursor_inv_def)

subsection \<open>Every operation\<close>

lemma apply_op_ok:
  assumes "stream_ok s"
  shows "stream_ok (apply_op dev op s)"
proof (cases op)
  case ReadByte
  with assms show ?thesis using readByte_summary [of s dev] by simp
next
  case (ReadBytes n)
  with assms show ?thesis using readBytes_summary [of s dev n] by simp
next
  case (WriteByte b)
  with assms show ?thesis using writeByte_summary [of s dev b] by simp
next
  case (WriteBytes bs)
  with assms show ?thesis using writeBytes_summary [of s dev bs] by simp
next
  case Flush
  with assms show ?thesis using flush_summary [of s dev] by simp
next
  case (Seek off wh)
  with assms show ?thesis using seek_summary [of s dev off wh] by simp
next
  case (PushBack b)
  with assms show ?thesis using pushBack_summary [of s dev b] by simp
next
  case Close
  with assms show ?thesis using close_summary [of s dev] by simp
next
  case ClearError
  with assms show ?thesis by (simp add: clearError_ok)
qed

lemma apply_op_tracks: "op \<noteq> ClearError \<Longrightarrow> tracks s (apply_op dev op s)"
proof (cases op)
  case ReadByte
  then show ?thesis using readByte_summary [of s dev] by simp
next
  case (ReadBytes n)
  then show ?thesis using readBytes_summary [of s dev n] by simp
next
  case (WriteByte b)
  then show ?thesis using writeByte_summary [of s dev b] by simp
next
  case (WriteBytes bs)
  then show ?thesis using writeBytes_summary [of s dev bs] by simp
next
  case Flush
  then show ?thesis using flush_summary [of s dev] by simp
next
  case (Seek off wh)
  then show ?thesis using seek_summary [of s dev off wh] by simp
next
  case (PushBack b)
  then show ?thesis using pushBack_summary [of s dev b] by simp
next
  case Close
  then show ?thesis using close_summary [of s dev] by simp
next
  case ClearError
  assume "op \<noteq> ClearError"
  with ClearError show ?thesis by simp
qed

lemma open_stream_ok: "open_stream source m cap = Inr s \<Longrightarrow> 0 < cap \<Longrightarrow> stream_ok s"
  by (auto simp add: open_stream_def fresh_def stream_ok_def cursor_inv_def split: sum.splits)

lemma run_ok: "stream_ok s \<Longrightarrow> stream_ok (run dev ops s)"
  by (induction ops arbitrary: s) (simp_all add: apply_op_ok)

subsection \<open>The end-of-file flag\<close>

lemma run_eof:
  "ClearError \<notin> set ops \<Longrightarrow> eof_flag s \<Longrightarrow> eof_flag (run dev ops s)"
proof (induction ops arbitrary: s)
  case Nil
  then show ?case by simp
next
  case (Cons op ops)
  then have "op \<noteq> ClearError" by auto
  then have "tracks s (apply_op dev op s)" by (rule apply_op_tracks)
  with Cons.prems have "eof_flag (apply_op dev op s)" by (simp add: tracks_def)
  with Cons show ?case by simp
qed

text \<open>
  C6: over any operation but \<^verbatim>\<open>clearError\<close>, \<^verbatim>\<open>eof_flag\<close> is set afterwards exactly if it was
  set before or one of the operation's device calls is a read that returned zero bytes:
  a device read that fails, or any other device call, never sets it, and nothing resets
  it, failed reads included. So it stays set over any sequence of operations without
  \<^verbatim>\<open>clearError\<close>, which resets it.
\<close>

theorem eof_flag_sticky:
  "(op \<noteq> ClearError \<longrightarrow>
      eof_flag (apply_op dev op s)
        = (eof_flag s \<or> list_ex empty_read (new_calls s (apply_op dev op s))))
   \<and> (ClearError \<notin> set ops \<and> eof_flag s \<longrightarrow> eof_flag (run dev ops s))
   \<and> \<not> eof_flag (apply_op dev ClearError s)"
proof -
  have "op \<noteq> ClearError \<longrightarrow> tracks s (apply_op dev op s)"
    by (simp add: apply_op_tracks)
  then show ?thesis by (auto simp add: tracks_def run_eof clearError_def)
qed

theorem eof_flag_sticky_witness:
  "eof_flag (apply_op stuck_device ReadByte (fresh () Fully_buffered 4))
   \<and> new_calls (fresh () Fully_buffered 4) (apply_op stuck_device ReadByte (fresh () Fully_buffered 4))
        = [Dev_read 4 (Inr [])]
   \<and> eof_flag (run stuck_device [Seek 0 Seek_set, ReadByte, ReadBytes 2]
        (apply_op stuck_device ReadByte (fresh () Fully_buffered 4)))
   \<and> error_flag (run stuck_device [Seek 0 Seek_set, ReadByte, ReadBytes 2]
        (apply_op stuck_device ReadByte (fresh () Fully_buffered 4)))
   \<and> \<not> eof_flag (apply_op stuck_device ClearError
        (apply_op stuck_device ReadByte (fresh () Fully_buffered 4)))"
proof -
  have c: "new_calls (fresh () Fully_buffered 4) (apply_op stuck_device ReadByte (fresh () Fully_buffered 4))
        = [Dev_read 4 (Inr [])]"
    by code_simp
  have e: "error_flag (run stuck_device [Seek 0 Seek_set, ReadByte, ReadBytes 2]
        (apply_op stuck_device ReadByte (fresh () Fully_buffered 4)))"
    by code_simp
  have n: "ClearError \<notin> set [Seek 0 Seek_set, ReadByte, ReadBytes 2]" by simp
  have first: "eof_flag (apply_op stuck_device ReadByte (fresh () Fully_buffered 4))"
    using eof_flag_sticky [of ReadByte stuck_device "fresh () Fully_buffered 4" "[]"] c by simp
  show ?thesis
    using eof_flag_sticky [of ReadByte stuck_device
        "apply_op stuck_device ReadByte (fresh () Fully_buffered 4)"
        "[Seek 0 Seek_set, ReadByte, ReadBytes 2]"] first c e n
    by blast
qed

subsection \<open>Line-buffered writing\<close>

lemma flush_pending_whole:
  assumes "write_end s \<noteq> 0"
    and "deviceWrite dev (handle s) (take (write_end s) (buffer s)) = (Inr n, h)"
    and "write_end s \<le> n"
  shows "flush_pending dev z s =
     (Inr (), advance n (note_write (take (write_end s) (buffer s)) (Inr n) h s))"
proof -
  have "n \<noteq> 0" using assms(1,3) by simp
  then have "flush_pending dev z s =
      flush_pending dev 0 (advance n (note_write (take (write_end s) (buffer s)) (Inr n) h s))"
    by (rule flush_pending_progress [OF assms(1,2)])
  moreover have "write_end (advance n (note_write (take (write_end s) (buffer s)) (Inr n) h s)) = 0"
    using assms(3) by (simp add: advance_def note_write_def)
  ultimately show ?thesis by (simp add: flush_pending_empty)
qed

lemma writeByte_buffers:
  assumes "\<not> closed s" and "\<not> error_flag s" and "write_end (to_writing s) < capacity s"
    and "\<not> flush_after b s"
  shows "writeByte dev b s = (Inr (), append_byte b (to_writing s))"
proof -
  have "capacity (to_writing s) = capacity s" "flush_after b (to_writing s) = flush_after b s"
    by (simp_all add: to_writing_def discard_buffer_def flush_after_def)
  with assms show ?thesis
    by (simp add: writeByte_def make_room_def put_byte_def)
qed

lemma writeByte_flushes:
  assumes "\<not> closed s" and "\<not> error_flag s" and "write_end (to_writing s) < capacity s"
    and "flush_after b s"
  shows "writeByte dev b s = flush_pending dev 0 (append_byte b (to_writing s))"
proof -
  have "capacity (to_writing s) = capacity s" "flush_after b (to_writing s) = flush_after b s"
    by (simp_all add: to_writing_def discard_buffer_def flush_after_def)
  with assms show ?thesis
    by (simp add: writeByte_def make_room_def put_byte_def)
qed

lemma flush_pending_first:
  assumes "write_end s \<noteq> 0"
  shows "take 1 (new_calls s (snd (flush_pending dev z s)))
     = [Dev_write (take (write_end s) (buffer s))
          (fst (deviceWrite dev (handle s) (take (write_end s) (buffer s))))]"
proof -
  let ?bs = "take (write_end s) (buffer s)"
  obtain r h where w: "deviceWrite dev (handle s) ?bs = (r, h)"
    by (cases "deviceWrite dev (handle s) ?bs")
  let ?n = "note_write ?bs r h s"
  have "\<exists>cs. calls (snd (flush_pending dev z s)) = calls s @ Dev_write ?bs r # cs"
  proof (cases r)
    case (Inl e)
    then show ?thesis
      using flush_pending_failed [OF assms, of dev e h z] w
      by (simp add: device_failed_def note_write_def)
  next
    case (Inr n)
    show ?thesis
    proof (cases "n = 0")
      case True
      show ?thesis
      proof (cases "1 \<le> z")
        case t: True
        then show ?thesis
          using flush_pending_stuck [OF assms, of dev h z] w Inr True
          by (simp add: device_failed_def note_write_def)
      next
        case False
        then have "flush_pending dev z s = flush_pending dev (Suc z) (note_write ?bs (Inr 0) h s)"
          using flush_pending_retry [OF assms, of dev h z] w Inr True by simp
        then show ?thesis
          using flush_pending_writes [of dev "Suc z" "note_write ?bs (Inr 0) h s"] Inr True
          by (auto simp add: note_write_def)
      qed
    next
      case False
      then have "flush_pending dev z s = flush_pending dev 0 (advance n (note_write ?bs (Inr n) h s))"
        using flush_pending_progress [OF assms, of dev n h z] w Inr by simp
      then show ?thesis
        using flush_pending_writes [of dev 0 "advance n (note_write ?bs (Inr n) h s)"] Inr
        by (auto simp add: note_write_def advance_def)
    qed
  qed
  then obtain cs where "calls (snd (flush_pending dev z s)) = calls s @ (Dev_write ?bs r # cs)"
    by auto
  then have "new_calls s (snd (flush_pending dev z s)) = Dev_write ?bs r # cs"
    by (rule new_calls_append)
  then show ?thesis using w by simp
qed

lemma close_first:
  assumes "\<not> closed s" and "new_calls s (snd (flush dev s)) \<noteq> []"
  shows "take 1 (new_calls s (snd (close dev s))) = take 1 (new_calls s (snd (flush dev s)))"
proof -
  let ?f = "snd (flush dev s)"
  have "\<exists>cs. calls (snd (close dev s)) = calls ?f @ cs"
    using assms(1)
    by (cases "flush dev s"; cases "deviceClose dev (handle ?f)"; cases "fst (deviceClose dev (handle ?f))";
        cases "fst (flush dev s)")
       (auto simp add: close_def Let_def discard_buffer_def device_failed_def)
  then obtain cs where "calls (snd (close dev s)) = calls ?f @ cs" by auto
  moreover have "calls ?f = calls s @ new_calls s ?f"
    using flush_summary [of s dev] by (simp add: tracks_calls)
  ultimately have "calls (snd (close dev s)) = calls s @ (new_calls s ?f @ cs)" by simp
  then have "new_calls s (snd (close dev s)) = new_calls s ?f @ cs" by (rule new_calls_append)
  with assms(2) show ?thesis by (cases "new_calls s ?f") simp_all
qed

text \<open>
  C8 (as stated, refuted): a line-buffered Stream of capacity 2 that is written \<^verbatim>\<open>"ab\n"\<close>
  finds its buffer full at the newline, so that (by the rule of \<^verbatim>\<open>writeByte\<close>) it flushes
  \<^verbatim>\<open>"ab"\<close> before it appends the newline and flushes again after: two device writes, of 2
  bytes and of 1 byte, none of 3 bytes.
\<close>

theorem line_buffered_small_capacity:
  "open_stream (Inr \<lparr>content = [], offset = 0\<rparr>) Line_buffered 2
     = Inr (fresh \<lparr>content = [], offset = 0\<rparr> Line_buffered 2)
   \<and> mode (fresh \<lparr>content = [], offset = 0\<rparr> Line_buffered 2) = Line_buffered
   \<and> new_calls (fresh \<lparr>content = [], offset = 0\<rparr> Line_buffered 2)
        (snd (writeBytes mem_device [97, 98, 10] (fresh \<lparr>content = [], offset = 0\<rparr> Line_buffered 2)))
      = [Dev_write [97, 98] (Inr 2), Dev_write [10] (Inr 1)]"
  by code_simp

text \<open>
  C8 (amended): take an open line-buffered Stream with no error flag, no pending write in
  its buffer and a device that does not answer a write of \<^verbatim>\<open>"ab\n"\<close> with a partial count.
  With capacity 3 at least, writing \<^verbatim>\<open>"ab\n"\<close> makes exactly one device call, a write of
  those 3 bytes. With capacity 2 at least, writing \<^verbatim>\<open>"ab"\<close> makes no device call, and the
  first device call of a following \<^verbatim>\<open>flush\<close> or \<^verbatim>\<open>close\<close> is the write of those 2 bytes.
\<close>

theorem line_buffered_flush:
  assumes ok: "stream_ok s" and op: "\<not> closed s" "\<not> error_flag s"
    and lb: "mode s = Line_buffered"
    and empty: "direction s = Writing \<longrightarrow> write_end s = 0"
    and dw: "deviceWrite dev (handle s) [97, 98, 10] = (r, h)"
    and whole: "case r of Inl e \<Rightarrow> True | Inr n \<Rightarrow> 3 \<le> n"
  shows "(3 \<le> capacity s \<longrightarrow>
            new_calls s (snd (writeBytes dev [97, 98, 10] s)) = [Dev_write [97, 98, 10] r])
       \<and> (2 \<le> capacity s \<longrightarrow>
            new_calls s (snd (writeBytes dev [97, 98] s)) = []
            \<and> take 1 (new_calls (snd (writeBytes dev [97, 98] s))
                  (snd (flush dev (snd (writeBytes dev [97, 98] s)))))
                = [Dev_write [97, 98] (fst (deviceWrite dev (handle s) [97, 98]))]
            \<and> take 1 (new_calls (snd (writeBytes dev [97, 98] s))
                  (snd (close dev (snd (writeBytes dev [97, 98] s)))))
                = [Dev_write [97, 98] (fst (deviceWrite dev (handle s) [97, 98]))])"
proof -
  let ?t0 = "to_writing s"
  let ?s1 = "append_byte 97 ?t0"
  let ?s2 = "append_byte 98 (to_writing ?s1)"
  let ?s3 = "append_byte 10 (to_writing ?s2)"
  have w0: "write_end ?t0 = 0"
    using ok empty by (cases "direction s")
      (simp_all add: to_writing_def discard_buffer_def stream_ok_def)
  have nf: "\<not> flush_after 97 s" "\<not> flush_after 98 ?s1" "flush_after 10 ?s2"
    using lb by (simp_all add: flush_after_def newline_def append_byte_def to_writing_def
        discard_buffer_def)
  have s1: "\<not> closed ?s1" "\<not> error_flag ?s1" "write_end (to_writing ?s1) = 1"
    "capacity ?s1 = capacity s" "calls ?s1 = calls s" "handle ?s1 = handle s"
    using op w0 by (simp_all add: append_byte_def to_writing_def discard_buffer_def)
  have s2: "\<not> closed ?s2" "\<not> error_flag ?s2" "write_end (to_writing ?s2) = 2"
    "capacity ?s2 = capacity s" "calls ?s2 = calls s" "handle ?s2 = handle s"
    "direction ?s2 = Writing" "write_end ?s2 = 2" "take 2 (buffer ?s2) = [97, 98]"
    using op w0 by (simp_all add: append_byte_def to_writing_def discard_buffer_def)
  have s3: "write_end ?s3 = 3" "take 3 (buffer ?s3) = [97, 98, 10]" "calls ?s3 = calls s"
    "handle ?s3 = handle s"
    using op w0 by (simp_all add: append_byte_def to_writing_def discard_buffer_def)
  have two: "writeBytes dev [97, 98] s = (Inr 2, ?s2)" if "2 \<le> capacity s"
  proof -
    have "writeByte dev 97 s = (Inr (), ?s1)"
      using op w0 nf(1) that by (intro writeByte_buffers) simp_all
    moreover have "writeByte dev 98 ?s1 = (Inr (), ?s2)"
      using s1 nf(2) that by (intro writeByte_buffers) simp_all
    ultimately show ?thesis by simp
  qed
  have three: "new_calls s (snd (writeBytes dev [97, 98, 10] s)) = [Dev_write [97, 98, 10] r]"
    if c3: "3 \<le> capacity s"
  proof -
    have a: "writeByte dev 97 s = (Inr (), ?s1)"
      using op w0 nf(1) that by (intro writeByte_buffers) simp_all
    have b: "writeByte dev 98 ?s1 = (Inr (), ?s2)"
      using s1 nf(2) that by (intro writeByte_buffers) simp_all
    have c: "writeByte dev 10 ?s2 = flush_pending dev 0 ?s3"
      using s2 nf(3) that by (intro writeByte_flushes) simp_all
    have d: "deviceWrite dev (handle ?s3) (take (write_end ?s3) (buffer ?s3)) = (r, h)"
      using dw s3 by simp
    have "calls (snd (flush_pending dev 0 ?s3)) = calls s @ [Dev_write [97, 98, 10] r]"
    proof (cases r)
      case (Inl e)
      have "write_end ?s3 \<noteq> 0" using s3 by simp
      from flush_pending_failed [OF this d [unfolded Inl], of 0] show ?thesis
        using s3 Inl by (simp add: device_failed_def note_write_def)
    next
      case (Inr n)
      with whole have n: "3 \<le> n" by simp
      have "write_end ?s3 \<noteq> 0" "write_end ?s3 \<le> n" using s3 n by simp_all
      from flush_pending_whole [OF this(1) d [unfolded Inr] this(2), of 0] show ?thesis
        using s3 Inr by (simp add: advance_def note_write_def)
    qed
    then have "new_calls s (snd (flush_pending dev 0 ?s3)) = [Dev_write [97, 98, 10] r]"
      by (rule new_calls_append)
    moreover have "snd (writeBytes dev [97, 98, 10] s) = snd (flush_pending dev 0 ?s3)"
      using a b c by (cases "flush_pending dev 0 ?s3"; cases "fst (flush_pending dev 0 ?s3)") auto
    ultimately show ?thesis by simp
  qed
  have rest: "new_calls s ?s2 = []
      \<and> take 1 (new_calls ?s2 (snd (flush dev ?s2)))
          = [Dev_write [97, 98] (fst (deviceWrite dev (handle s) [97, 98]))]
      \<and> take 1 (new_calls ?s2 (snd (close dev ?s2)))
          = [Dev_write [97, 98] (fst (deviceWrite dev (handle s) [97, 98]))]"
  proof -
    have n0: "new_calls s ?s2 = []" using s2(5) by (rule new_calls_silent)
    have fl: "flush dev ?s2 = flush_pending dev 0 ?s2"
      using s2 by (simp add: flush_def)
    have "write_end ?s2 \<noteq> 0" using s2 by simp
    from flush_pending_first [OF this, of dev 0]
    have f1: "take 1 (new_calls ?s2 (snd (flush dev ?s2)))
          = [Dev_write [97, 98] (fst (deviceWrite dev (handle s) [97, 98]))]"
      using s2 fl by simp
    then have "new_calls ?s2 (snd (flush dev ?s2)) \<noteq> []" by auto
    from close_first [OF s2(1) this] f1 n0 show ?thesis by simp
  qed
  show ?thesis using two three rest by simp
qed

theorem line_buffered_flush_witness:
  "stream_ok (fresh \<lparr>content = [], offset = 0\<rparr> Line_buffered 8)
   \<and> new_calls (fresh \<lparr>content = [], offset = 0\<rparr> Line_buffered 8)
        (snd (writeBytes mem_device [97, 98, 10] (fresh \<lparr>content = [], offset = 0\<rparr> Line_buffered 8)))
      = [Dev_write [97, 98, 10] (Inr 3)]
   \<and> new_calls (fresh \<lparr>content = [], offset = 0\<rparr> Line_buffered 8)
        (snd (writeBytes mem_device [97, 98] (fresh \<lparr>content = [], offset = 0\<rparr> Line_buffered 8)))
      = []"
proof -
  let ?s = "fresh \<lparr>content = [], offset = 0\<rparr> Line_buffered 8"
  have ok: "stream_ok ?s"
    by (simp add: stream_ok_def cursor_inv_def fresh_def)
  have op: "\<not> closed ?s" "\<not> error_flag ?s" and lb: "mode ?s = Line_buffered"
    and empty: "direction ?s = Writing \<longrightarrow> write_end ?s = 0"
    by (simp_all add: fresh_def)
  have dw: "deviceWrite mem_device (handle ?s) [97, 98, 10]
      = (Inr 3, \<lparr>content = [97, 98, 10], offset = 3\<rparr>)"
    by (simp add: fresh_def mem_device_def mem_write_def)
  have whole: "case (Inr 3 :: nat + nat) of Inl e \<Rightarrow> True | Inr n \<Rightarrow> 3 \<le> n"
    by simp
  have cap: "3 \<le> capacity ?s" "2 \<le> capacity ?s" by (simp_all add: fresh_def)
  from line_buffered_flush [OF ok op lb empty dw whole] cap ok show ?thesis by blast
qed

subsection \<open>What the retry loop does with the device's answers\<close>







lemma pending_note_write [simp]: "pending (note_write bs r h s) = pending s"
  by (simp add: pending_def note_write_def)

lemma pending_device_failed [simp]: "pending (device_failed e s) = pending s"
  by (simp add: pending_def device_failed_def)

lemma pending_advance [simp]: "pending (advance n s) = drop n (pending s)"
  by (simp add: pending_def advance_def drop_take)





subsection \<open>Termination of the retry loops\<close>



subsection \<open>Round trip over a file in memory\<close>























subsection \<open>The cursor invariant\<close>

text \<open>
  C9 (as stated, refuted): the spec gives \<^verbatim>\<open>open\<close> no rule about the capacity. On a Stream of
  capacity 0 the buffer is full from the start; \<^verbatim>\<open>writeByte\<close> flushes it, which writes
  nothing, and appends all the same: after it \<^verbatim>\<open>write_end\<close> is 1 and \<^verbatim>\<open>capacity\<close> is 0.
\<close>

theorem cursor_invariant_capacity_zero:
  "open_stream (Inr \<lparr>content = [], offset = 0\<rparr>) Fully_buffered 0
     = Inr (fresh \<lparr>content = [], offset = 0\<rparr> Fully_buffered 0)
   \<and> read_pos (apply_op mem_device (WriteByte 97)
        (fresh \<lparr>content = [], offset = 0\<rparr> Fully_buffered 0)) = 0
   \<and> write_end (apply_op mem_device (WriteByte 97)
        (fresh \<lparr>content = [], offset = 0\<rparr> Fully_buffered 0)) = 1
   \<and> capacity (apply_op mem_device (WriteByte 97)
        (fresh \<lparr>content = [], offset = 0\<rparr> Fully_buffered 0)) = 0"
  by code_simp

text \<open>
  C9 (amended): a Stream is what \<^verbatim>\<open>open\<close> returned, after any sequence of public operations.
  For every Stream opened with a capacity of one byte at least,
  \<^verbatim>\<open>read_pos <= write_end <= capacity\<close> holds, and it holds again after any one more
  operation (\<^verbatim>\<open>readByte\<close>, \<^verbatim>\<open>readBytes\<close>, \<^verbatim>\<open>writeByte\<close>, \<^verbatim>\<open>writeBytes\<close>, \<^verbatim>\<open>flush\<close>, \<^verbatim>\<open>seek\<close>,
  \<^verbatim>\<open>pushBack\<close>, \<^verbatim>\<open>close\<close>, \<^verbatim>\<open>clearError\<close>), whatever the device does.
\<close>

theorem cursor_invariant:
  assumes "open_stream source m cap = Inr s0" and "0 < cap" and "s = run dev ops s0"
  shows "read_pos s \<le> write_end s \<and> write_end s \<le> capacity s
         \<and> read_pos (apply_op dev op s) \<le> write_end (apply_op dev op s)
         \<and> write_end (apply_op dev op s) \<le> capacity (apply_op dev op s)"
proof -
  have "stream_ok s" using assms by (simp add: open_stream_ok run_ok)
  then have "stream_ok s \<and> stream_ok (apply_op dev op s)" by (simp add: apply_op_ok)
  then show ?thesis by (simp add: stream_ok_def cursor_inv_def)
qed

theorem cursor_invariant_witness:
  "open_stream (Inr \<lparr>content = [], offset = 0\<rparr>) Line_buffered 4
     = Inr (fresh \<lparr>content = [], offset = 0\<rparr> Line_buffered 4)
   \<and> (0 :: nat) < 4
   \<and> read_pos (run mem_device [WriteBytes [97, 98, 10], Seek 0 Seek_set, ReadByte]
        (fresh \<lparr>content = [], offset = 0\<rparr> Line_buffered 4)) = 1
   \<and> write_end (run mem_device [WriteBytes [97, 98, 10], Seek 0 Seek_set, ReadByte]
        (fresh \<lparr>content = [], offset = 0\<rparr> Line_buffered 4)) = 3
   \<and> read_pos (apply_op mem_device (PushBack 120)
        (run mem_device [WriteBytes [97, 98, 10], Seek 0 Seek_set, ReadByte]
          (fresh \<lparr>content = [], offset = 0\<rparr> Line_buffered 4)))
      \<le> write_end (apply_op mem_device (PushBack 120)
        (run mem_device [WriteBytes [97, 98, 10], Seek 0 Seek_set, ReadByte]
          (fresh \<lparr>content = [], offset = 0\<rparr> Line_buffered 4)))
   \<and> write_end (apply_op mem_device (PushBack 120)
        (run mem_device [WriteBytes [97, 98, 10], Seek 0 Seek_set, ReadByte]
          (fresh \<lparr>content = [], offset = 0\<rparr> Line_buffered 4)))
      \<le> capacity (apply_op mem_device (PushBack 120)
        (run mem_device [WriteBytes [97, 98, 10], Seek 0 Seek_set, ReadByte]
          (fresh \<lparr>content = [], offset = 0\<rparr> Line_buffered 4)))"
proof -
  have o: "open_stream (Inr \<lparr>content = [], offset = 0\<rparr>) Line_buffered 4
     = Inr (fresh \<lparr>content = [], offset = 0\<rparr> Line_buffered 4)"
    by (simp add: open_stream_def)
  have c: "(0 :: nat) < 4" by simp
  have r: "read_pos (run mem_device [WriteBytes [97, 98, 10], Seek 0 Seek_set, ReadByte]
        (fresh \<lparr>content = [], offset = 0\<rparr> Line_buffered 4)) = 1"
    by code_simp
  have w: "write_end (run mem_device [WriteBytes [97, 98, 10], Seek 0 Seek_set, ReadByte]
        (fresh \<lparr>content = [], offset = 0\<rparr> Line_buffered 4)) = 3"
    by code_simp
  show ?thesis
    using cursor_invariant [where dev = mem_device
        and ops = "[WriteBytes [97, 98, 10], Seek 0 Seek_set, ReadByte]"
        and op = "PushBack 120", OF o c refl] o r w
    by simp
qed

end
